theory Spec2Isabelle
  imports Complex_Main
begin

section \<open>Discrete-time multi-server queue simulation (src/server.py, src/mesa.py)\<close>

text \<open>
  The engine of \<^verbatim>\<open>src/server.py\<close> is embedded. \<^verbatim>\<open>src/mesa.py\<close> is the same engine
  without the statistics: its \<^verbatim>\<open>ServerAgent.step\<close>, \<^verbatim>\<open>begin_service\<close>,
  \<^verbatim>\<open>find_available_server\<close> and dispatch code are line for line those of
  \<^verbatim>\<open>server.py\<close>, less the fields \<^verbatim>\<open>total_tasks_served\<close>, \<^verbatim>\<open>arrival_time\<close> and
  \<^verbatim>\<open>queue_wait_time\<close>, and it draws the service time with \<^verbatim>\<open>random.randint(2, 10)\<close>.

  Python objects are shared by reference: a task object is held by the scheduler and by
  the server that queues or serves it. The task objects therefore live in a store, the
  list \<open>tasks\<close> in creation order (the task agents of \<^verbatim>\<open>schedule.agents\<close>), and a
  server refers to a task by its position in the store. A server is referred to by its
  position in \<^verbatim>\<open>model.servers\<close>.

  The Mesa library is outside the repository. Its scheduler is taken as what the code
  uses it for: \<^verbatim>\<open>schedule.step()\<close> activates every agent once, in an order chosen by the
  library (the order of the servers is an input of a step; a task agent's \<^verbatim>\<open>step\<close> is
  \<^verbatim>\<open>pass\<close>), and \<^verbatim>\<open>schedule.agents\<close> lists every agent added. A task agent gets the
  step number as its \<^verbatim>\<open>unique_id\<close>, which can equal the id of a server; what a version
  of the library does with two agents of the same id is not part of the model. The data
  collector and the \<^verbatim>\<open>print\<close> calls are output only and are left out.
\<close>

datatype error = ValueError | ZeroDivisionError | AttributeError

record task =
  task_unique_id :: int
  initial_service_time :: int
  remaining_service_time :: int
  assigned_server :: "nat option"
  arrival_time :: int
  queue_wait_time :: int

record server =
  unique_id :: int
  busy :: bool
  current_task :: "nat option"
  total_service_time :: int
  queue :: "nat list"
  total_tasks_served :: int

record model =
  num_servers :: int
  task_arrival_rate :: real
  task_service_rate :: real
  max_steps :: int
  running :: bool
  current_step :: int
  total_queue_wait_time :: int
  total_time_in_system :: int
  total_tasks :: int
  servers :: "server list"
  tasks :: "task list"

text \<open>
  The random draws of one step: the value of \<^verbatim>\<open>random.random()\<close>, the value that
  \<^verbatim>\<open>random.expovariate\<close> returns if it is called, and the order in which the scheduler
  activates the servers. Python floats are read as the real numbers they denote;
  comparison and \<^verbatim>\<open>int()\<close> are exact on them.
\<close>

record step_input =
  arrival_draw :: real
  service_draw :: real
  activation :: "nat list"

subsection \<open>ServerAgent\<close>

definition ServerAgent_init :: "int \<Rightarrow> server" where
  "ServerAgent_init uid =
     \<lparr>unique_id = uid, busy = False, current_task = None, total_service_time = 0,
      queue = [], total_tasks_served = 0\<rparr>"

text \<open>
  \<^verbatim>\<open>begin_service(self, task)\<close>: \<open>cs\<close> is \<^verbatim>\<open>self.model.current_step\<close>, \<open>self\<close> the
  position of the server and \<open>k\<close> the task. A reference \<open>k\<close> outside the store cannot
  occur in Python; here it leaves the store as it is.
\<close>

definition begin_service ::
  "int \<Rightarrow> nat \<Rightarrow> nat \<Rightarrow> server \<times> task list \<Rightarrow> server \<times> task list" where
  "begin_service cs self k st =
     (case st of (s, ts) \<Rightarrow>
        (s\<lparr>busy := True, current_task := Some k\<rparr>,
         ts[k := (ts ! k)\<lparr>assigned_server := Some self,
                          queue_wait_time := cs - arrival_time (ts ! k)\<rparr>]))"

text \<open>
  \<^verbatim>\<open>complete_service(self)\<close> reads \<^verbatim>\<open>self.current_task.unique_id\<close> first, which raises
  AttributeError when there is no current task.
\<close>

definition complete_service :: "server \<times> task list \<Rightarrow> error + server \<times> task list" where
  "complete_service st =
     (case st of (s, ts) \<Rightarrow>
        (case current_task s of
           None \<Rightarrow> Inl AttributeError
         | Some k \<Rightarrow>
             Inr (s\<lparr>busy := False,
                    total_service_time := total_service_time s + initial_service_time (ts ! k),
                    total_tasks_served := total_tasks_served s + 1,
                    current_task := None\<rparr>, ts)))"

text \<open>The first \<^verbatim>\<open>if\<close> of \<^verbatim>\<open>ServerAgent.step\<close> (server.py lines 18-21).\<close>

definition serve_tick :: "server \<times> task list \<Rightarrow> error + server \<times> task list" where
  "serve_tick st =
     (case st of (s, ts) \<Rightarrow>
        if busy s then
          (case current_task s of
             None \<Rightarrow> Inr (s, ts)
           | Some k \<Rightarrow>
               (let t = (ts ! k)\<lparr>remaining_service_time := remaining_service_time (ts ! k) - 1\<rparr>;
                    ts' = ts[k := t]
                in if remaining_service_time t \<le> 0 then complete_service (s, ts')
                   else Inr (s, ts')))
        else Inr (s, ts))"

text \<open>The second \<^verbatim>\<open>if\<close> of \<^verbatim>\<open>ServerAgent.step\<close> (server.py lines 23-24).\<close>

definition start_queued :: "int \<Rightarrow> nat \<Rightarrow> server \<times> task list \<Rightarrow> server \<times> task list" where
  "start_queued cs self st =
     (case st of (s, ts) \<Rightarrow>
        if \<not> busy s \<and> length (queue s) > 0 then
          (case queue s of
             [] \<Rightarrow> (s, ts)
           | k # q \<Rightarrow> begin_service cs self k (s\<lparr>queue := q\<rparr>, ts))
        else (s, ts))"

definition ServerAgent_step ::
  "int \<Rightarrow> nat \<Rightarrow> server \<times> task list \<Rightarrow> error + server \<times> task list" where
  "ServerAgent_step cs self st =
     (case serve_tick st of
        Inl e \<Rightarrow> Inl e
      | Inr st' \<Rightarrow> Inr (start_queued cs self st'))"

subsection \<open>TaskAgent\<close>

definition TaskAgent_init :: "int \<Rightarrow> int \<Rightarrow> int \<Rightarrow> task" where
  "TaskAgent_init uid cs service_time =
     \<lparr>task_unique_id = uid, initial_service_time = service_time,
      remaining_service_time = service_time, assigned_server = None,
      arrival_time = cs, queue_wait_time = 0\<rparr>"

subsection \<open>QueueServerModel\<close>

definition QueueServerModel_init :: "int \<Rightarrow> real \<Rightarrow> real \<Rightarrow> int \<Rightarrow> model" where
  "QueueServerModel_init n arrival_rate service_rate steps =
     \<lparr>num_servers = n, task_arrival_rate = arrival_rate, task_service_rate = service_rate,
      max_steps = steps, running = True, current_step = 0,
      total_queue_wait_time = 0, total_time_in_system = 0, total_tasks = 0,
      servers = map (\<lambda>i. ServerAgent_init (int i)) [0..<nat n], tasks = []\<rparr>"

text \<open>\<^verbatim>\<open>find_available_server\<close>: the first server of the list that is not busy.\<close>

fun first_not_busy :: "nat \<Rightarrow> server list \<Rightarrow> nat option" where
  "first_not_busy i [] = None"
| "first_not_busy i (s # ss) = (if \<not> busy s then Some i else first_not_busy (Suc i) ss)"

definition find_available_server :: "model \<Rightarrow> nat option" where
  "find_available_server m = first_not_busy 0 (servers m)"

text \<open>
  Python's \<^verbatim>\<open>min(self.servers, key=lambda s: len(s.queue))\<close>: one pass that keeps the
  best element so far and replaces it only by a strictly smaller key; ValueError on an
  empty list. \<open>min_scan b bk i ss\<close> continues the pass at position \<open>i\<close> with the best
  position \<open>b\<close> and its key \<open>bk\<close>.
\<close>

fun min_scan :: "nat \<Rightarrow> nat \<Rightarrow> nat \<Rightarrow> server list \<Rightarrow> nat" where
  "min_scan b bk i [] = b"
| "min_scan b bk i (s # ss) =
     (if length (queue s) < bk then min_scan i (length (queue s)) (Suc i) ss
      else min_scan b bk (Suc i) ss)"

definition server_with_shortest_queue :: "server list \<Rightarrow> error + nat" where
  "server_with_shortest_queue ss =
     (case ss of [] \<Rightarrow> Inl ValueError | s # rest \<Rightarrow> Inr (min_scan 0 (length (queue s)) 1 rest))"

text \<open>Python's \<^verbatim>\<open>int()\<close> on a float truncates towards zero.\<close>

definition py_int :: "real \<Rightarrow> int" where
  "py_int x = (if 0 \<le> x then \<lfloor>x\<rfloor> else \<lceil>x\<rceil>)"

text \<open>
  Arrival and dispatch (server.py lines 89-102). \<^verbatim>\<open>random.expovariate(lambd)\<close> divides
  by \<^verbatim>\<open>lambd\<close> and raises ZeroDivisionError for a rate of zero; otherwise its value is
  the input \<open>service_draw\<close>. The new task is added to the scheduler, that is, to the end
  of the store.
\<close>

definition arrival_dispatch :: "step_input \<Rightarrow> model \<Rightarrow> error + model" where
  "arrival_dispatch inp m =
     (if arrival_draw inp < task_arrival_rate m then
        (if task_service_rate m = 0 then Inl ZeroDivisionError
         else
           (let service_time = py_int (service_draw inp);
                k = length (tasks m);
                new_task = TaskAgent_init (current_step m) (current_step m) service_time;
                m1 = m\<lparr>tasks := tasks m @ [new_task], total_tasks := total_tasks m + 1\<rparr>
            in case find_available_server m1 of
                 Some i \<Rightarrow>
                   (case begin_service (current_step m1) i k (servers m1 ! i, tasks m1) of
                      (s', ts') \<Rightarrow> Inr (m1\<lparr>servers := (servers m1)[i := s'], tasks := ts'\<rparr>))
               | None \<Rightarrow>
                   (case server_with_shortest_queue (servers m1) of
                      Inl e \<Rightarrow> Inl e
                    | Inr j \<Rightarrow>
                        Inr (m1\<lparr>servers := (servers m1)
                                  [j := (servers m1 ! j)\<lparr>queue := queue (servers m1 ! j) @ [k]\<rparr>]\<rparr>))))
      else Inr m)"

text \<open>
  \<^verbatim>\<open>self.schedule.step()\<close> (line 105): the servers are activated in the order \<open>is\<close>;
  each activation works on the server object and on the shared task store.
\<close>

fun schedule_step ::
  "int \<Rightarrow> nat list \<Rightarrow> server list \<times> task list \<Rightarrow> error + server list \<times> task list" where
  "schedule_step cs [] st = Inr st"
| "schedule_step cs (i # is) (ss, ts) =
     (if i < length ss then
        (case ServerAgent_step cs i (ss ! i, ts) of
           Inl e \<Rightarrow> Inl e
         | Inr (s', ts') \<Rightarrow> schedule_step cs is (ss[i := s'], ts'))
      else schedule_step cs is (ss, ts))"

text \<open>
  The loop over \<^verbatim>\<open>self.schedule.agents\<close> (lines 109-112): every task agent whose
  \<^verbatim>\<open>assigned_server\<close> is set adds to the two totals.
\<close>

fun stats_loop :: "int \<Rightarrow> task list \<Rightarrow> int \<times> int \<Rightarrow> int \<times> int" where
  "stats_loop cs [] acc = acc"
| "stats_loop cs (t # ts) (w, y) =
     (if assigned_server t \<noteq> None
      then stats_loop cs ts (w + queue_wait_time t, y + (cs - arrival_time t))
      else stats_loop cs ts (w, y))"

definition stats_update :: "model \<Rightarrow> model" where
  "stats_update m =
     (case stats_loop (current_step m) (tasks m)
             (total_queue_wait_time m, total_time_in_system m) of
        (w, y) \<Rightarrow> m\<lparr>total_queue_wait_time := w, total_time_in_system := y\<rparr>)"

text \<open>Lines 114-116.\<close>

definition clock_advance :: "model \<Rightarrow> model" where
  "clock_advance m =
     (let m' = m\<lparr>current_step := current_step m + 1\<rparr>
      in if current_step m' \<ge> max_steps m' then m'\<lparr>running := False\<rparr> else m')"

definition QueueServerModel_step :: "step_input \<Rightarrow> model \<Rightarrow> error + model" where
  "QueueServerModel_step inp m =
     (case arrival_dispatch inp m of
        Inl e \<Rightarrow> Inl e
      | Inr m1 \<Rightarrow>
          (case schedule_step (current_step m1) (activation inp) (servers m1, tasks m1) of
             Inl e \<Rightarrow> Inl e
           | Inr (ss, ts) \<Rightarrow>
               Inr (clock_advance (stats_update (m1\<lparr>servers := ss, tasks := ts\<rparr>)))))"

definition get_avg_time_in_queue :: "model \<Rightarrow> real" where
  "get_avg_time_in_queue m =
     (if total_tasks m > 0 then real_of_int (total_queue_wait_time m) / real_of_int (total_tasks m)
      else 0)"

definition get_avg_time_in_system :: "model \<Rightarrow> real" where
  "get_avg_time_in_system m =
     (if total_tasks m > 0 then real_of_int (total_time_in_system m) / real_of_int (total_tasks m)
      else 0)"

text \<open>
  The position of the first minimum of the queue lengths in a list of servers.
\<close>

definition first_min :: "server list \<Rightarrow> nat \<Rightarrow> bool" where
  "first_min ss j \<longleftrightarrow>
     j < length ss \<and> (\<forall>i<length ss. length (queue (ss ! j)) \<le> length (queue (ss ! i))) \<and>
     (\<forall>i<j. length (queue (ss ! j)) < length (queue (ss ! i)))"

subsection \<open>Runs\<close>

text \<open>
  What the random source and the scheduler can deliver in one step:
  \<^verbatim>\<open>random.random()\<close> lies in \<open>[0, 1)\<close>, and every server is activated exactly once.
\<close>

definition valid_input :: "model \<Rightarrow> step_input \<Rightarrow> bool" where
  "valid_input m inp \<longleftrightarrow>
     0 \<le> arrival_draw inp \<and> arrival_draw inp < 1 \<and>
     distinct (activation inp) \<and> set (activation inp) = {0..<length (servers m)}"

text \<open>The states of a model between two calls of \<^verbatim>\<open>step\<close>, from its construction on.\<close>

inductive reachable :: "model \<Rightarrow> bool" where
  init: "reachable (QueueServerModel_init n a r k)"
| step: "reachable m \<Longrightarrow> valid_input m inp \<Longrightarrow> QueueServerModel_step inp m = Inr m' \<Longrightarrow>
         reachable m'"

text \<open>
  The driver loop \<^verbatim>\<open>while model.running: model.step()\<close>; \<open>rnd n\<close> are the draws of the
  \<open>n\<close>-th iteration.
\<close>

function run :: "(nat \<Rightarrow> step_input) \<Rightarrow> nat \<Rightarrow> model \<Rightarrow> error + model" where
  "run rnd n m =
     (if running m then
        (case QueueServerModel_step (rnd n) m of
           Inl e \<Rightarrow> Inl e
         | Inr m' \<Rightarrow> run rnd (Suc n) m')
      else Inr m)"
  by pat_completeness auto
termination
proof (relation "measure (\<lambda>(rnd, n, m).
    if running m then nat (max_steps m - current_step m) + 1 else 0)")
  show "wf (measure (\<lambda>(rnd, n, m).
    if running m then nat (max_steps m - current_step m) + 1 else 0))"
    by simp
next
  fix rnd :: "nat \<Rightarrow> step_input" and n :: nat and m m' :: model
  assume r: "running m" and s: "QueueServerModel_step (rnd n) m = Inr m'"
  from s obtain m1 where d: "arrival_dispatch (rnd n) m = Inr m1"
    by (auto simp: QueueServerModel_step_def split: sum.splits)
  from d have f: "running m1 = running m \<and> current_step m1 = current_step m \<and>
      max_steps m1 = max_steps m"
    by (auto simp: arrival_dispatch_def Let_def begin_service_def
        split: if_splits option.splits sum.splits)
  from s d have "running m' = (\<not> max_steps m1 \<le> current_step m1 + 1 \<and> running m1) \<and>
      current_step m' = current_step m1 + 1 \<and> max_steps m' = max_steps m1"
    by (auto simp: QueueServerModel_step_def clock_advance_def stats_update_def Let_def
        split: sum.splits prod.splits if_splits)
  with f r show "((rnd, Suc n, m'), (rnd, n, m)) \<in> measure (\<lambda>(rnd, n, m).
    if running m then nat (max_steps m - current_step m) + 1 else 0)"
    by auto
qed

text \<open>A caller that invokes \<^verbatim>\<open>model.step()\<close> once for each element of a list of draws.\<close>

fun steps :: "step_input list \<Rightarrow> model \<Rightarrow> error + model" where
  "steps [] m = Inr m"
| "steps (inp # inps) m =
     (case QueueServerModel_step inp m of Inl e \<Rightarrow> Inl e | Inr m' \<Rightarrow> steps inps m')"

subsection \<open>Well-formed servers and stores\<close>

definition consistent :: "server \<Rightarrow> bool" where
  "consistent s \<longleftrightarrow> (busy s \<longleftrightarrow> current_task s \<noteq> None)"

text \<open>The tasks a server refers to: its current task, then its queue.\<close>

definition refs :: "server \<Rightarrow> nat list" where
  "refs s = (case current_task s of None \<Rightarrow> [] | Some k \<Rightarrow> [k]) @ queue s"

text \<open>
  A server is in order with respect to the store when it is consistent, refers to tasks
  of the store, to none of them twice, its queued tasks are untouched, and its current
  task has service time left if it was created with some, and otherwise has not been
  decremented yet.
\<close>

definition server_ok :: "server \<Rightarrow> task list \<Rightarrow> bool" where
  "server_ok s ts \<longleftrightarrow>
     consistent s \<and> distinct (refs s) \<and> (\<forall>k\<in>set (refs s). k < length ts) \<and>
     (\<forall>k\<in>set (queue s). remaining_service_time (ts ! k) = initial_service_time (ts ! k)) \<and>
     (\<forall>k. current_task s = Some k \<longrightarrow>
          min 1 (initial_service_time (ts ! k)) \<le> remaining_service_time (ts ! k))"

text \<open>
  The lower bound of the remaining service times of a store: 0 for a task created with a
  service time of at least 1, and one less than its service time for any other task.
\<close>

definition remaining_bounded :: "task list \<Rightarrow> bool" where
  "remaining_bounded ts \<longleftrightarrow>
     (\<forall>k<length ts.
        min 0 (initial_service_time (ts ! k) - 1) \<le> remaining_service_time (ts ! k))"

definition well_formed :: "server list \<Rightarrow> task list \<Rightarrow> bool" where
  "well_formed ss ts \<longleftrightarrow>
     (\<forall>i<length ss. server_ok (ss ! i) ts) \<and>
     (\<forall>i<length ss. \<forall>j<length ss. i \<noteq> j \<longrightarrow> set (refs (ss ! i)) \<inter> set (refs (ss ! j)) = {}) \<and>
     remaining_bounded ts"

subsection \<open>Counting tasks\<close>

text \<open>The tasks a server holds: its current task and its queue.\<close>

definition tasks_held :: "server \<Rightarrow> int" where
  "tasks_held s = (if current_task s = None then 0 else 1) + int (length (queue s))"

subsection \<open>Example states\<close>

text \<open>
  A run of one server with arrival rate 1/2: a task of service time 3 arrives at step 0,
  a task of service time 2 at step 1, and nothing at step 2.
\<close>

definition example_inputs :: "step_input list" where
  "example_inputs =
     [\<lparr>arrival_draw = 1 / 4, service_draw = 3, activation = [0]\<rparr>,
      \<lparr>arrival_draw = 1 / 4, service_draw = 2, activation = [0]\<rparr>,
      \<lparr>arrival_draw = 3 / 4, service_draw = 0, activation = [0]\<rparr>]"

text \<open>The states of that run after its first, second and third step.\<close>

definition example_after_1 :: model where
  "example_after_1 =
     \<lparr>num_servers = 1, task_arrival_rate = 1 / 2, task_service_rate = 1, max_steps = 5,
      running = True, current_step = 1, total_queue_wait_time = 0, total_time_in_system = 0,
      total_tasks = 1,
      servers = [\<lparr>unique_id = 0, busy = True, current_task = Some 0, total_service_time = 0,
                  queue = [], total_tasks_served = 0\<rparr>],
      tasks = [\<lparr>task_unique_id = 0, initial_service_time = 3, remaining_service_time = 2,
                assigned_server = Some 0, arrival_time = 0, queue_wait_time = 0\<rparr>]\<rparr>"

definition example_after_2 :: model where
  "example_after_2 =
     \<lparr>num_servers = 1, task_arrival_rate = 1 / 2, task_service_rate = 1, max_steps = 5,
      running = True, current_step = 2, total_queue_wait_time = 0, total_time_in_system = 1,
      total_tasks = 2,
      servers = [\<lparr>unique_id = 0, busy = True, current_task = Some 0, total_service_time = 0,
                  queue = [1], total_tasks_served = 0\<rparr>],
      tasks = [\<lparr>task_unique_id = 0, initial_service_time = 3, remaining_service_time = 1,
                assigned_server = Some 0, arrival_time = 0, queue_wait_time = 0\<rparr>,
               \<lparr>task_unique_id = 1, initial_service_time = 2, remaining_service_time = 2,
                assigned_server = None, arrival_time = 1, queue_wait_time = 0\<rparr>]\<rparr>"

definition example_after_3 :: model where
  "example_after_3 =
     \<lparr>num_servers = 1, task_arrival_rate = 1 / 2, task_service_rate = 1, max_steps = 5,
      running = True, current_step = 3, total_queue_wait_time = 1, total_time_in_system = 4,
      total_tasks = 2,
      servers = [\<lparr>unique_id = 0, busy = True, current_task = Some 1, total_service_time = 3,
                  queue = [], total_tasks_served = 1\<rparr>],
      tasks = [\<lparr>task_unique_id = 0, initial_service_time = 3, remaining_service_time = 0,
                assigned_server = Some 0, arrival_time = 0, queue_wait_time = 0\<rparr>,
               \<lparr>task_unique_id = 1, initial_service_time = 2, remaining_service_time = 2,
                assigned_server = Some 0, arrival_time = 1, queue_wait_time = 1\<rparr>]\<rparr>"

text \<open>
  The state after one step in which a task with a draw of 1/2, and so a service time of
  0, arrives at an idle server.
\<close>

definition example_zero_service :: model where
  "example_zero_service =
     \<lparr>num_servers = 1, task_arrival_rate = 1 / 2, task_service_rate = 1, max_steps = 5,
      running = True, current_step = 1, total_queue_wait_time = 0, total_time_in_system = 0,
      total_tasks = 1,
      servers = [\<lparr>unique_id = 0, busy = False, current_task = None, total_service_time = 0,
                  queue = [], total_tasks_served = 1\<rparr>],
      tasks = [\<lparr>task_unique_id = 0, initial_service_time = 0, remaining_service_time = - 1,
                assigned_server = Some 0, arrival_time = 0, queue_wait_time = 0\<rparr>]\<rparr>"

text \<open>Two busy servers, the first with one queued task.\<close>

definition example_two_busy :: model where
  "example_two_busy = \<lparr>num_servers = 2, task_arrival_rate = 1, task_service_rate = 1, max_steps = 9,
      running = True, current_step = 3, total_queue_wait_time = 0, total_time_in_system = 0,
      total_tasks = 3,
      servers = [\<lparr>unique_id = 0, busy = True, current_task = Some 0, total_service_time = 0,
                  queue = [2], total_tasks_served = 0\<rparr>,
                 \<lparr>unique_id = 1, busy = True, current_task = Some 1, total_service_time = 0,
                  queue = [], total_tasks_served = 0\<rparr>],
      tasks = [ (TaskAgent_init 0 0 5)\<lparr>assigned_server := Some 0\<rparr>,
                (TaskAgent_init 1 1 5)\<lparr>assigned_server := Some 1\<rparr>,
                TaskAgent_init 2 2 5]\<rparr>"

section \<open>A single server activation\<close>

lemma map_update_same: "f y = f (xs ! k) \<Longrightarrow> map f (xs[k := y]) = map f xs"
  by (cases "k < length xs") (auto simp: list_eq_iff_nth_eq nth_list_update)

lemma serve_tick_total: "\<exists>s' ts'. serve_tick (s, ts) = Inr (s', ts')"
  by (simp add: serve_tick_def complete_service_def Let_def split: option.split)

lemma start_queued_queue:
  "start_queued cs self (s, ts) = (s', ts') \<Longrightarrow>
     queue s' = queue s \<or> (queue s \<noteq> [] \<and> queue s' = tl (queue s))"
  by (auto simp: start_queued_def begin_service_def split: if_splits list.splits)

lemma serve_tick_queue: "serve_tick (s, ts) = Inr (s', ts') \<Longrightarrow> queue s' = queue s"
  by (auto simp: serve_tick_def complete_service_def Let_def split: if_splits option.splits)

lemma start_queued_remaining:
  "start_queued cs self (s, ts) = (s', ts') \<Longrightarrow>
     map remaining_service_time ts' = map remaining_service_time ts"
  by (auto simp: start_queued_def begin_service_def map_update_same
      split: if_splits list.splits)

lemma serve_tick_idle:
  "\<not> (busy s \<and> current_task s \<noteq> None) \<Longrightarrow> serve_tick (s, ts) = Inr (s, ts)"
  by (auto simp: serve_tick_def)

lemma start_queued_idle_empty: "queue s = [] \<Longrightarrow> start_queued cs self (s, ts) = (s, ts)"
  by (simp add: start_queued_def)

lemma start_queued_busy: "busy s \<Longrightarrow> start_queued cs self (s, ts) = (s, ts)"
  by (simp add: start_queued_def)

text \<open>
  Claim C10. \<^verbatim>\<open>ServerAgent.step\<close> always returns: it never reaches the
  AttributeError of \<^verbatim>\<open>complete_service\<close>, whatever the server and the store are. It
  removes at most the front task of the queue. Unless the server is busy and has a
  current task, no task's remaining service time changes; a server marked busy without
  a current task, and an idle server with an empty queue, are left exactly as they were.
\<close>

theorem ServerAgent_step_total:
  "(\<exists>s' ts'. ServerAgent_step cs self (s, ts) = Inr (s', ts') \<and>
       (queue s' = queue s \<or> (queue s \<noteq> [] \<and> queue s' = tl (queue s))) \<and>
       (\<not> (busy s \<and> current_task s \<noteq> None) \<longrightarrow>
          map remaining_service_time ts' = map remaining_service_time ts)) \<and>
   (busy s \<and> current_task s = None \<longrightarrow> ServerAgent_step cs self (s, ts) = Inr (s, ts)) \<and>
   (\<not> busy s \<and> queue s = [] \<longrightarrow> ServerAgent_step cs self (s, ts) = Inr (s, ts))"
proof (intro conjI impI)
  obtain s1 ts1 where t: "serve_tick (s, ts) = Inr (s1, ts1)"
    using serve_tick_total by blast
  obtain s2 ts2 where q: "start_queued cs self (s1, ts1) = (s2, ts2)"
    by (cases "start_queued cs self (s1, ts1)") 
  have r: "ServerAgent_step cs self (s, ts) = Inr (s2, ts2)"
    by (simp add: ServerAgent_step_def t q)
  have q1: "queue s1 = queue s" using t by (rule serve_tick_queue)
  have q2: "queue s2 = queue s \<or> (queue s \<noteq> [] \<and> queue s2 = tl (queue s))"
    using start_queued_queue [OF q] q1 by simp
  have d: "map remaining_service_time ts2 = map remaining_service_time ts"
    if "\<not> (busy s \<and> current_task s \<noteq> None)"
  proof -
    from that t have "ts1 = ts" by (simp add: serve_tick_idle)
    with start_queued_remaining [OF q] show ?thesis by simp
  qed
  from r q2 d
  show "\<exists>s' ts'. ServerAgent_step cs self (s, ts) = Inr (s', ts') \<and>
       (queue s' = queue s \<or> (queue s \<noteq> [] \<and> queue s' = tl (queue s))) \<and>
       (\<not> (busy s \<and> current_task s \<noteq> None) \<longrightarrow>
          map remaining_service_time ts' = map remaining_service_time ts)"
    by blast
next
  assume "busy s \<and> current_task s = None"
  then show "ServerAgent_step cs self (s, ts) = Inr (s, ts)"
    by (simp add: ServerAgent_step_def serve_tick_idle start_queued_busy)
next
  assume "\<not> busy s \<and> queue s = []"
  then show "ServerAgent_step cs self (s, ts) = Inr (s, ts)"
    by (simp add: ServerAgent_step_def serve_tick_idle start_queued_idle_empty)
qed

theorem ServerAgent_step_total_witness:
  "ServerAgent_step 7 0
     (\<lparr>unique_id = 0, busy = True, current_task = None, total_service_time = 0,
       queue = [4], total_tasks_served = 0\<rparr>, []) =
   Inr (\<lparr>unique_id = 0, busy = True, current_task = None, total_service_time = 0,
         queue = [4], total_tasks_served = 0\<rparr>, [])"
  using ServerAgent_step_total [of 7 0 "\<lparr>unique_id = 0, busy = True, current_task = None,
     total_service_time = 0, queue = [4], total_tasks_served = 0\<rparr>" "[]"]
  by simp

section \<open>Dispatch\<close>

lemma first_not_busy_least:
  "i < length ss \<Longrightarrow> \<not> busy (ss ! i) \<Longrightarrow> \<forall>j<i. busy (ss ! j) \<Longrightarrow>
     first_not_busy n ss = Some (n + i)"
proof (induction ss arbitrary: n i)
  case Nil
  then show ?case by simp
next
  case (Cons s ss)
  show ?case
  proof (cases i)
    case 0
    with Cons.prems show ?thesis by simp
  next
    case (Suc i')
    with Cons.prems have "busy s" by auto
    moreover have "first_not_busy (Suc n) ss = Some (Suc n + i')"
      using Cons.prems Suc by (intro Cons.IH) auto
    ultimately show ?thesis using Suc by simp
  qed
qed

lemma first_not_busy_none: "\<forall>s\<in>set ss. busy s \<Longrightarrow> first_not_busy n ss = None"
  by (induction ss arbitrary: n) auto

lemma first_not_busy_Some:
  "first_not_busy n ss = Some i \<Longrightarrow>
     n \<le> i \<and> i - n < length ss \<and> \<not> busy (ss ! (i - n)) \<and> (\<forall>j<i - n. busy (ss ! j))"
proof (induction ss arbitrary: n)
  case Nil
  then show ?case by simp
next
  case (Cons s ss)
  show ?case
  proof (cases "busy s")
    case False
    with Cons.prems show ?thesis by simp
  next
    case True
    with Cons.prems have r: "first_not_busy (Suc n) ss = Some i" by simp
    from Cons.IH [OF r] have h: "Suc n \<le> i" "i - Suc n < length ss"
      "\<not> busy (ss ! (i - Suc n))" "\<forall>j<i - Suc n. busy (ss ! j)" by auto
    from h(1) have e: "i - n = Suc (i - Suc n)" by simp
    have "\<forall>j<i - n. busy ((s # ss) ! j)"
    proof (intro allI impI)
      fix j assume "j < i - n"
      then show "busy ((s # ss) ! j)" using True h(4) e by (cases j) auto
    qed
    then show ?thesis using h e by simp
  qed
qed

lemma first_not_busy_None: "first_not_busy n ss = None \<Longrightarrow> \<forall>s\<in>set ss. busy s"
  by (induction ss arbitrary: n) (auto split: if_splits)

lemma first_min_unique: "first_min ss i \<Longrightarrow> first_min ss j \<Longrightarrow> i = j"
  unfolding first_min_def by (metis linorder_neqE_nat not_less)

lemma min_scan_first_min:
  "first_min pre b \<Longrightarrow> bk = length (queue (pre ! b)) \<Longrightarrow>
     first_min (pre @ ss) (min_scan b bk (length pre) ss)"
proof (induction ss arbitrary: pre b bk)
  case Nil
  then show ?case by simp
next
  case (Cons s ss)
  have b: "b < length pre" using Cons.prems by (simp add: first_min_def)
  show ?case
  proof (cases "length (queue s) < bk")
    case True
    have "first_min (pre @ [s]) (length pre)"
      using Cons.prems True unfolding first_min_def
      by (auto simp: nth_append less_Suc_eq intro: less_le_trans less_imp_le)
    from Cons.IH [OF this] show ?thesis using True by simp
  next
    case False
    have "first_min (pre @ [s]) b"
      using Cons.prems False b unfolding first_min_def
      by (auto simp: nth_append less_Suc_eq)
    from Cons.IH [OF this] show ?thesis using False Cons.prems b by (simp add: nth_append)
  qed
qed

lemma server_with_shortest_queue_first_min:
  "ss \<noteq> [] \<Longrightarrow> \<exists>j. server_with_shortest_queue ss = Inr j \<and> first_min ss j"
proof (cases ss)
  case Nil
  assume "ss \<noteq> []" with Nil show ?thesis by simp
next
  case (Cons s rest)
  have "first_min [s] 0" by (simp add: first_min_def)
  from min_scan_first_min [OF this, of "length (queue s)" rest]
  show ?thesis using Cons by (simp add: server_with_shortest_queue_def)
qed

lemma server_with_shortest_queue_eq:
  "first_min ss j \<Longrightarrow> server_with_shortest_queue ss = Inr j"
proof -
  assume j: "first_min ss j"
  then have "ss \<noteq> []" by (auto simp: first_min_def)
  from server_with_shortest_queue_first_min [OF this] obtain j'
    where "server_with_shortest_queue ss = Inr j'" "first_min ss j'" by blast
  with j show ?thesis by (simp add: first_min_unique)
qed

lemma find_available_server_append [simp]:
  "find_available_server (m\<lparr>tasks := ts, total_tasks := n\<rparr>) = find_available_server m"
  by (simp add: find_available_server_def)

text \<open>
  Claim C2. When a task arrives and some server is not busy, the task goes to the first
  such server of the list (the one with the lowest id), which becomes busy with the task
  as its current task; the task records that server and a queue wait of 0. When every
  server is busy, the task is appended, with no server assigned, to the queue of the
  server whose queue is the first shortest one of the list.
\<close>

theorem dispatch_policy:
  assumes "arrival_draw inp < task_arrival_rate m" and "task_service_rate m \<noteq> 0"
  shows "(i < length (servers m) \<and> \<not> busy (servers m ! i) \<and> (\<forall>j<i. busy (servers m ! j)) \<longrightarrow>
            arrival_dispatch inp m =
              Inr (m\<lparr>tasks := tasks m @
                       [(TaskAgent_init (current_step m) (current_step m) (py_int (service_draw inp)))
                          \<lparr>assigned_server := Some i, queue_wait_time := 0\<rparr>],
                     total_tasks := total_tasks m + 1,
                     servers := (servers m)
                       [i := (servers m ! i)\<lparr>busy := True, current_task := Some (length (tasks m))\<rparr>]\<rparr>)) \<and>
         ((\<forall>s\<in>set (servers m). busy s) \<and> first_min (servers m) j \<longrightarrow>
            arrival_dispatch inp m =
              Inr (m\<lparr>tasks := tasks m @
                       [TaskAgent_init (current_step m) (current_step m) (py_int (service_draw inp))],
                     total_tasks := total_tasks m + 1,
                     servers := (servers m)
                       [j := (servers m ! j)\<lparr>queue := queue (servers m ! j) @ [length (tasks m)]\<rparr>]\<rparr>))"
proof (intro conjI impI)
  assume "i < length (servers m) \<and> \<not> busy (servers m ! i) \<and> (\<forall>j<i. busy (servers m ! j))"
  then have "first_not_busy 0 (servers m) = Some (0 + i)"
    by (intro first_not_busy_least) auto
  then have "find_available_server m = Some i"
    by (simp add: find_available_server_def)
  then show "arrival_dispatch inp m =
              Inr (m\<lparr>tasks := tasks m @
                       [(TaskAgent_init (current_step m) (current_step m) (py_int (service_draw inp)))
                          \<lparr>assigned_server := Some i, queue_wait_time := 0\<rparr>],
                     total_tasks := total_tasks m + 1,
                     servers := (servers m)
                       [i := (servers m ! i)\<lparr>busy := True, current_task := Some (length (tasks m))\<rparr>]\<rparr>)"
    using assms by (simp add: arrival_dispatch_def Let_def begin_service_def TaskAgent_init_def)
next
  assume a: "(\<forall>s\<in>set (servers m). busy s) \<and> first_min (servers m) j"
  then have "find_available_server m = None"
    by (simp add: find_available_server_def first_not_busy_none)
  moreover have "server_with_shortest_queue (servers m) = Inr j"
    using a by (simp add: server_with_shortest_queue_eq)
  ultimately show "arrival_dispatch inp m =
              Inr (m\<lparr>tasks := tasks m @
                       [TaskAgent_init (current_step m) (current_step m) (py_int (service_draw inp))],
                     total_tasks := total_tasks m + 1,
                     servers := (servers m)
                       [j := (servers m ! j)\<lparr>queue := queue (servers m ! j) @ [length (tasks m)]\<rparr>]\<rparr>)"
    using assms by (simp add: arrival_dispatch_def Let_def)
qed

theorem dispatch_policy_witness:
  "arrival_dispatch \<lparr>arrival_draw = 0, service_draw = 4, activation = [0, 1]\<rparr>
     (QueueServerModel_init 2 1 1 9) =
   Inr \<lparr>num_servers = 2, task_arrival_rate = 1, task_service_rate = 1, max_steps = 9,
        running = True, current_step = 0, total_queue_wait_time = 0, total_time_in_system = 0,
        total_tasks = 1,
        servers = [\<lparr>unique_id = 0, busy = True, current_task = Some 0, total_service_time = 0,
                    queue = [], total_tasks_served = 0\<rparr>,
                   \<lparr>unique_id = 1, busy = False, current_task = None, total_service_time = 0,
                    queue = [], total_tasks_served = 0\<rparr>],
        tasks = [\<lparr>task_unique_id = 0, initial_service_time = 4, remaining_service_time = 4,
                  assigned_server = Some 0, arrival_time = 0, queue_wait_time = 0\<rparr>]\<rparr> \<and>
   first_min (servers example_two_busy) 1 \<and>
   arrival_dispatch \<lparr>arrival_draw = 0, service_draw = 4, activation = [0, 1]\<rparr> example_two_busy =
   Inr (example_two_busy\<lparr>total_tasks := 4,
          servers := [\<lparr>unique_id = 0, busy = True, current_task = Some 0, total_service_time = 0,
                       queue = [2], total_tasks_served = 0\<rparr>,
                      \<lparr>unique_id = 1, busy = True, current_task = Some 1, total_service_time = 0,
                       queue = [3], total_tasks_served = 0\<rparr>],
          tasks := tasks example_two_busy @ [TaskAgent_init 3 3 4]\<rparr>)"
proof -
  have f: "first_min (servers example_two_busy) 1"
    by (simp add: first_min_def example_two_busy_def less_Suc_eq)
  show ?thesis
    using f
      dispatch_policy [of "\<lparr>arrival_draw = 0, service_draw = 4, activation = [0, 1]\<rparr>"
        "QueueServerModel_init 2 1 1 9" 0 0]
      dispatch_policy [of "\<lparr>arrival_draw = 0, service_draw = 4, activation = [0, 1]\<rparr>"
        example_two_busy 0 1]
    by (simp add: QueueServerModel_init_def ServerAgent_init_def TaskAgent_init_def py_int_def
        upt_rec example_two_busy_def)
qed

section \<open>Service times\<close>

lemma py_int_nonneg: "0 \<le> x \<Longrightarrow> py_int x = \<lfloor>x\<rfloor> \<and> 0 \<le> py_int x \<and> (x < 1 \<longrightarrow> py_int x = 0)"
  by (auto simp: py_int_def floor_eq_iff)

lemma arrival_dispatch_new_task:
  assumes "arrival_draw inp < task_arrival_rate m" and "arrival_dispatch inp m = Inr m'"
  shows "length (tasks m') = Suc (length (tasks m)) \<and>
         initial_service_time (tasks m' ! length (tasks m)) = py_int (service_draw inp) \<and>
         remaining_service_time (tasks m' ! length (tasks m)) = py_int (service_draw inp)"
  using assms
  by (auto simp: arrival_dispatch_def Let_def begin_service_def TaskAgent_init_def nth_append
      split: if_splits option.splits sum.splits)

lemma arrival_dispatch_succeeds:
  assumes "servers m \<noteq> []" and "task_service_rate m \<noteq> 0"
  shows "\<exists>m'. arrival_dispatch inp m = Inr m'"
proof (cases "find_available_server m")
  case None
  from server_with_shortest_queue_first_min [OF assms(1)] obtain j
    where "server_with_shortest_queue (servers m) = Inr j" by blast
  with None assms(2) show ?thesis
    by (simp add: arrival_dispatch_def Let_def)
next
  case (Some i)
  with assms(2) show ?thesis
    by (simp add: arrival_dispatch_def Let_def begin_service_def)
qed

text \<open>
  Claim C6, as the code has it. The service time of a task created by an arrival is the
  value drawn from \<^verbatim>\<open>random.expovariate\<close> truncated by \<^verbatim>\<open>int()\<close>, with no lower clamp.
  For a draw that is not negative this is its floor, so it is at least 0, and it is 0
  whenever the draw is below 1.
\<close>

theorem service_time_truncated_draw:
  assumes "arrival_draw inp < task_arrival_rate m" and "task_service_rate m \<noteq> 0"
    and "servers m \<noteq> []"
  shows "\<exists>m'. arrival_dispatch inp m = Inr m' \<and>
           length (tasks m') = Suc (length (tasks m)) \<and>
           initial_service_time (tasks m' ! length (tasks m)) = py_int (service_draw inp) \<and>
           (0 \<le> service_draw inp \<longrightarrow>
              initial_service_time (tasks m' ! length (tasks m)) = \<lfloor>service_draw inp\<rfloor> \<and>
              0 \<le> initial_service_time (tasks m' ! length (tasks m)) \<and>
              (service_draw inp < 1 \<longrightarrow> initial_service_time (tasks m' ! length (tasks m)) = 0))"
proof -
  from arrival_dispatch_succeeds [OF assms(3) assms(2)] obtain m'
    where m': "arrival_dispatch inp m = Inr m'" by blast
  from arrival_dispatch_new_task [OF assms(1) m'] py_int_nonneg [of "service_draw inp"] m'
  show ?thesis by auto
qed

theorem service_time_truncated_draw_witness:
  "\<exists>m'. arrival_dispatch \<lparr>arrival_draw = 1 / 4, service_draw = 7 / 2, activation = [0]\<rparr>
          (QueueServerModel_init 1 (9 / 10) (2 / 5) 100) = Inr m' \<and>
        length (tasks m') = 1 \<and> initial_service_time (tasks m' ! 0) = 3"
  using service_time_truncated_draw [of "\<lparr>arrival_draw = 1 / 4, service_draw = 7 / 2, activation = [0]\<rparr>"
      "QueueServerModel_init 1 (9 / 10) (2 / 5) 100"]
  by (auto simp: QueueServerModel_init_def py_int_def)

theorem service_time_zero_counterexample:
  "arrival_dispatch \<lparr>arrival_draw = 1 / 4, service_draw = 1 / 2, activation = [0]\<rparr>
     (QueueServerModel_init 1 (9 / 10) (2 / 5) 100) =
   Inr \<lparr>num_servers = 1, task_arrival_rate = 9 / 10, task_service_rate = 2 / 5, max_steps = 100,
        running = True, current_step = 0, total_queue_wait_time = 0, total_time_in_system = 0,
        total_tasks = 1,
        servers = [\<lparr>unique_id = 0, busy = True, current_task = Some 0, total_service_time = 0,
                    queue = [], total_tasks_served = 0\<rparr>],
        tasks = [\<lparr>task_unique_id = 0, initial_service_time = 0, remaining_service_time = 0,
                  assigned_server = Some 0, arrival_time = 0, queue_wait_time = 0\<rparr>]\<rparr>"
  by (simp add: arrival_dispatch_def find_available_server_def QueueServerModel_init_def
      ServerAgent_init_def TaskAgent_init_def py_int_def begin_service_def Let_def)

section \<open>Construction\<close>

text \<open>
  Claim C8, as the code has it. \<^verbatim>\<open>QueueServerModel.__init__\<close> checks nothing: for
  every \<^verbatim>\<open>num_servers\<close>, arrival rate, service rate and \<^verbatim>\<open>max_steps\<close> it returns a
  running model at step 0 with zeroed totals, the parameters stored as given, and
  \<^verbatim>\<open>max(num_servers, 0)\<close> idle servers with empty queues and ids 0, 1, ...
\<close>

theorem construction_accepts_all:
  "num_servers (QueueServerModel_init n a r k) = n \<and>
   task_arrival_rate (QueueServerModel_init n a r k) = a \<and>
   task_service_rate (QueueServerModel_init n a r k) = r \<and>
   max_steps (QueueServerModel_init n a r k) = k \<and>
   running (QueueServerModel_init n a r k) \<and>
   current_step (QueueServerModel_init n a r k) = 0 \<and>
   total_tasks (QueueServerModel_init n a r k) = 0 \<and>
   total_queue_wait_time (QueueServerModel_init n a r k) = 0 \<and>
   total_time_in_system (QueueServerModel_init n a r k) = 0 \<and>
   tasks (QueueServerModel_init n a r k) = [] \<and>
   length (servers (QueueServerModel_init n a r k)) = nat n \<and>
   (\<forall>i<nat n. servers (QueueServerModel_init n a r k) ! i =
      \<lparr>unique_id = int i, busy = False, current_task = None, total_service_time = 0,
       queue = [], total_tasks_served = 0\<rparr>)"
  by (simp add: QueueServerModel_init_def ServerAgent_init_def)

theorem construction_accepts_all_witness:
  "servers (QueueServerModel_init 3 (9 / 10) (2 / 5) 100) ! 2 =
      \<lparr>unique_id = 2, busy = False, current_task = None, total_service_time = 0,
       queue = [], total_tasks_served = 0\<rparr> \<and>
   length (servers (QueueServerModel_init (- 4) 7 (- 1) 0)) = 0"
  using construction_accepts_all [of 3 "9 / 10" "2 / 5" 100]
    construction_accepts_all [of "- 4" 7 "- 1" 0]
  by simp

theorem construction_invalid_counterexample:
  "QueueServerModel_init 0 2 0 (- 1) =
     \<lparr>num_servers = 0, task_arrival_rate = 2, task_service_rate = 0, max_steps = - 1,
      running = True, current_step = 0, total_queue_wait_time = 0, total_time_in_system = 0,
      total_tasks = 0, servers = [], tasks = []\<rparr> \<and>
   QueueServerModel_step \<lparr>arrival_draw = 1 / 2, service_draw = 1, activation = []\<rparr>
     (QueueServerModel_init 0 2 0 (- 1)) = Inl ZeroDivisionError \<and>
   QueueServerModel_step \<lparr>arrival_draw = 1 / 2, service_draw = 1, activation = []\<rparr>
     (QueueServerModel_init 0 2 1 (- 1)) = Inl ValueError"
  by (simp add: QueueServerModel_init_def QueueServerModel_step_def arrival_dispatch_def
      find_available_server_def server_with_shortest_queue_def Let_def)

section \<open>Well-formedness is kept by every operation\<close>

lemma serve_tick_ok:
  assumes "serve_tick (s, ts) = Inr (s', ts')" and "server_ok s ts"
  shows "server_ok s' ts'" and "set (refs s') \<subseteq> set (refs s)" and "length ts' = length ts"
    and "\<forall>k. k \<notin> set (refs s) \<longrightarrow> ts' ! k = ts ! k"
    and "remaining_bounded ts \<Longrightarrow> remaining_bounded ts'"
  using assms
  by (auto simp: serve_tick_def complete_service_def server_ok_def consistent_def refs_def
      remaining_bounded_def Let_def nth_list_update split: if_splits option.splits)

lemma start_queued_ok:
  assumes "start_queued cs self (s, ts) = (s', ts')" and "server_ok s ts"
  shows "server_ok s' ts'" and "set (refs s') \<subseteq> set (refs s)" and "length ts' = length ts"
    and "\<forall>k. k \<notin> set (refs s) \<longrightarrow> ts' ! k = ts ! k"
    and "remaining_bounded ts \<Longrightarrow> remaining_bounded ts'"
  using assms
  by (auto simp: start_queued_def begin_service_def server_ok_def consistent_def refs_def
      remaining_bounded_def Let_def nth_list_update split: if_splits option.splits list.splits)

lemma ServerAgent_step_ok:
  assumes "ServerAgent_step cs self (s, ts) = Inr (s', ts')" and "server_ok s ts"
  shows "server_ok s' ts'" and "set (refs s') \<subseteq> set (refs s)" and "length ts' = length ts"
    and "\<forall>k. k \<notin> set (refs s) \<longrightarrow> ts' ! k = ts ! k"
    and "remaining_bounded ts \<Longrightarrow> remaining_bounded ts'"
proof -
  from assms(1) obtain s1 ts1 where t: "serve_tick (s, ts) = Inr (s1, ts1)"
    and q: "start_queued cs self (s1, ts1) = (s', ts')"
    by (auto simp: ServerAgent_step_def split: sum.splits)
  note a = serve_tick_ok [OF t assms(2)]
  note b = start_queued_ok [OF q a(1)]
  show "server_ok s' ts'" by (rule b(1))
  show "set (refs s') \<subseteq> set (refs s)" using a(2) b(2) by blast
  show "length ts' = length ts" using a(3) b(3) by simp
  show "\<forall>k. k \<notin> set (refs s) \<longrightarrow> ts' ! k = ts ! k" using a(2,4) b(4) by auto
  show "remaining_bounded ts \<Longrightarrow> remaining_bounded ts'" using a(5) b(5) by blast
qed

lemma server_ok_frame:
  assumes "server_ok s ts" and "length ts' = length ts" and "\<forall>k\<in>set (refs s). ts' ! k = ts ! k"
  shows "server_ok s ts'"
  using assms by (auto simp: server_ok_def refs_def split: option.splits)

lemma well_formed_tick:
  assumes w: "well_formed ss ts" and i: "i < length ss"
    and t: "ServerAgent_step cs i (ss ! i, ts) = Inr (s', ts')"
  shows "well_formed (ss[i := s']) ts'"
proof -
  from w i have ok: "server_ok (ss ! i) ts" by (simp add: well_formed_def)
  note a = ServerAgent_step_ok [OF t ok]
  have disj: "set (refs (ss ! i)) \<inter> set (refs (ss ! j)) = {}" if "j < length ss" "j \<noteq> i" for j
    using w i that by (auto simp: well_formed_def)
  have 1: "server_ok (ss[i := s'] ! j) ts'" if j: "j < length ss" for j
  proof (cases "j = i")
    case True
    with i a(1) show ?thesis by simp
  next
    case False
    from w j have okj: "server_ok (ss ! j) ts" by (simp add: well_formed_def)
    have fr: "\<forall>k\<in>set (refs (ss ! j)). ts' ! k = ts ! k"
      using disj [OF j False] a(4) by auto
    have "server_ok (ss ! j) ts'" by (rule server_ok_frame [OF okj a(3) fr])
    with False show ?thesis by simp
  qed
  have r: "set (refs (ss[i := s'] ! j)) \<subseteq> set (refs (ss ! j))" if "j < length ss" for j
  proof (cases "j = i")
    case True
    then have "ss[i := s'] ! j = s'" using i by simp
    with a(2) True show ?thesis by simp
  next
    case False
    then have "ss[i := s'] ! j = ss ! j" by simp
    then show ?thesis by simp
  qed
  have 2: "set (refs (ss[i := s'] ! j)) \<inter> set (refs (ss[i := s'] ! l)) = {}"
    if "j < length ss" "l < length ss" "j \<noteq> l" for j l
  proof -
    from w that have "set (refs (ss ! j)) \<inter> set (refs (ss ! l)) = {}"
      by (simp add: well_formed_def)
    with r [OF that(1)] r [OF that(2)] show ?thesis by blast
  qed
  from w have "remaining_bounded ts" by (simp add: well_formed_def)
  then have 3: "remaining_bounded ts'" by (rule a(5))
  from 1 2 3 show ?thesis by (simp add: well_formed_def)
qed

lemma schedule_step_lengths:
  "schedule_step cs is (ss, ts) = Inr (ss', ts') \<Longrightarrow> length ss' = length ss"
proof (induction "is" arbitrary: ss ts)
  case Nil
  then show ?case by simp
next
  case (Cons i "is")
  then show ?case by (auto split: if_splits sum.splits)
qed

lemma schedule_step_well_formed:
  "schedule_step cs is (ss, ts) = Inr (ss', ts') \<Longrightarrow> well_formed ss ts \<Longrightarrow>
     well_formed ss' ts'"
proof (induction "is" arbitrary: ss ts)
  case Nil
  then show ?case by simp
next
  case (Cons i "is")
  show ?case
  proof (cases "i < length ss")
    case False
    with Cons.prems Cons.IH show ?thesis by simp
  next
    case True
    with Cons.prems(1) obtain s1 ts1 where t: "ServerAgent_step cs i (ss ! i, ts) = Inr (s1, ts1)"
      and r: "schedule_step cs is (ss[i := s1], ts1) = Inr (ss', ts')"
      by (auto split: sum.splits)
    from well_formed_tick [OF Cons.prems(2) True t] Cons.IH [OF r] show ?thesis by blast
  qed
qed

lemma ServerAgent_step_returns: "\<exists>s' ts'. ServerAgent_step cs self (s, ts) = Inr (s', ts')"
proof -
  obtain s1 ts1 where "serve_tick (s, ts) = Inr (s1, ts1)"
    using serve_tick_total by blast
  then show ?thesis
    by (cases "start_queued cs self (s1, ts1)") (simp add: ServerAgent_step_def)
qed

lemma schedule_step_total: "\<exists>ss' ts'. schedule_step cs is (ss, ts) = Inr (ss', ts')"
proof (induction "is" arbitrary: ss ts)
  case Nil
  then show ?case by simp
next
  case (Cons i "is")
  show ?case
  proof (cases "i < length ss")
    case False
    with Cons.IH show ?thesis by simp
  next
    case True
    obtain s1 ts1 where "ServerAgent_step cs i (ss ! i, ts) = Inr (s1, ts1)"
      using ServerAgent_step_returns by blast
    with True Cons.IH [of "ss[i := s1]" ts1] show ?thesis by simp
  qed
qed

lemma server_ok_append: "server_ok s ts \<Longrightarrow> server_ok s (ts @ [t])"
  by (auto simp: server_ok_def refs_def nth_append split: option.splits)

lemma server_ok_fresh: "server_ok s ts \<Longrightarrow> length ts \<notin> set (refs s)"
  by (auto simp: server_ok_def)

lemma remaining_bounded_append:
  "remaining_bounded ts \<Longrightarrow> remaining_service_time t = initial_service_time t \<Longrightarrow>
     remaining_bounded (ts @ [t])"
  by (auto simp: remaining_bounded_def nth_append less_Suc_eq)

lemma server_ok_assign:
  assumes "server_ok s ts" and "\<not> busy s"
    and "remaining_service_time t = initial_service_time t"
  shows "server_ok (s\<lparr>busy := True, current_task := Some (length ts)\<rparr>) (ts @ [t])"
    and "set (refs (s\<lparr>busy := True, current_task := Some (length ts)\<rparr>)) =
           insert (length ts) (set (refs s))"
  using assms
  by (auto simp: server_ok_def consistent_def refs_def nth_append less_Suc_eq split: option.splits)

lemma server_ok_enqueue:
  assumes "server_ok s ts" and "remaining_service_time t = initial_service_time t"
  shows "server_ok (s\<lparr>queue := queue s @ [length ts]\<rparr>) (ts @ [t])"
    and "set (refs (s\<lparr>queue := queue s @ [length ts]\<rparr>)) = insert (length ts) (set (refs s))"
  using assms
  by (auto simp: server_ok_def consistent_def refs_def nth_append split: option.splits)

lemma well_formed_new_task:
  assumes w: "well_formed ss ts" and i: "i < length ss"
    and t: "remaining_service_time t = initial_service_time t"
    and ok: "server_ok s' (ts @ [t])"
    and r: "set (refs s') = insert (length ts) (set (refs (ss ! i)))"
  shows "well_formed (ss[i := s']) (ts @ [t])"
proof -
  have ok_all: "server_ok (ss ! j) ts" if "j < length ss" for j
    using w that by (simp add: well_formed_def)
  have 1: "server_ok (ss[i := s'] ! j) (ts @ [t])" if j: "j < length ss" for j
  proof (cases "j = i")
    case True
    with i ok show ?thesis by simp
  next
    case False
    with server_ok_append [OF ok_all [OF j]] show ?thesis by simp
  qed
  have sub: "set (refs (ss[i := s'] ! j)) \<subseteq> insert (length ts) (set (refs (ss ! j)))"
      if j: "j < length ss" for j
  proof (cases "j = i")
    case True
    then have "ss[i := s'] ! j = s'" using i by simp
    with r True show ?thesis by simp
  next
    case False
    then have "ss[i := s'] ! j = ss ! j" by simp
    then show ?thesis by auto
  qed
  have 2: "set (refs (ss[i := s'] ! j)) \<inter> set (refs (ss[i := s'] ! l)) = {}"
    if jl: "j < length ss" "l < length ss" "j \<noteq> l" for j l
  proof -
    from w jl have d: "set (refs (ss ! j)) \<inter> set (refs (ss ! l)) = {}"
      by (simp add: well_formed_def)
    have fj: "length ts \<notin> set (refs (ss ! j))" by (rule server_ok_fresh [OF ok_all [OF jl(1)]])
    have fl: "length ts \<notin> set (refs (ss ! l))" by (rule server_ok_fresh [OF ok_all [OF jl(2)]])
    show ?thesis
    proof (cases "j = i")
      case True
      with jl(3) have "ss[i := s'] ! l = ss ! l" by simp
      with sub [OF jl(1)] d fl show ?thesis by auto
    next
      case False
      then have "ss[i := s'] ! j = ss ! j" by simp
      with sub [OF jl(2)] d fj show ?thesis by auto
    qed
  qed
  from w have "remaining_bounded ts" by (simp add: well_formed_def)
  then have 3: "remaining_bounded (ts @ [t])" using t by (rule remaining_bounded_append)
  from 1 2 3 show ?thesis by (simp add: well_formed_def)
qed

lemma server_with_shortest_queue_bound:
  "server_with_shortest_queue ss = Inr j \<Longrightarrow> j < length ss"
proof -
  assume a: "server_with_shortest_queue ss = Inr j"
  then have "ss \<noteq> []" by (auto simp: server_with_shortest_queue_def)
  from server_with_shortest_queue_first_min [OF this] a show ?thesis
    by (auto simp: first_min_def)
qed

lemma find_available_server_Some:
  "find_available_server m = Some i \<Longrightarrow> i < length (servers m) \<and> \<not> busy (servers m ! i)"
  using first_not_busy_Some [of 0 "servers m" i] by (simp add: find_available_server_def)

lemma arrival_dispatch_well_formed:
  assumes d: "arrival_dispatch inp m = Inr m'" and w: "well_formed (servers m) (tasks m)"
  shows "well_formed (servers m') (tasks m')"
proof (cases "arrival_draw inp < task_arrival_rate m")
  case False
  with d w show ?thesis by (simp add: arrival_dispatch_def)
next
  case True
  define t where "t = TaskAgent_init (current_step m) (current_step m) (py_int (service_draw inp))"
  have rt: "remaining_service_time t = initial_service_time t"
    by (simp add: t_def TaskAgent_init_def)
  show ?thesis
  proof (cases "find_available_server m")
    case (Some i)
    from find_available_server_Some [OF Some]
    have i: "i < length (servers m)" and nb: "\<not> busy (servers m ! i)" by auto
    define t' where "t' = t\<lparr>assigned_server := Some i, queue_wait_time := 0\<rparr>"
    have rt': "remaining_service_time t' = initial_service_time t'"
      by (simp add: t'_def rt)
    from d True Some have s: "servers m' =
        (servers m)[i := (servers m ! i)\<lparr>busy := True, current_task := Some (length (tasks m))\<rparr>]"
      and ts: "tasks m' = tasks m @ [t']"
      by (auto simp: arrival_dispatch_def Let_def begin_service_def t_def t'_def
          TaskAgent_init_def split: if_splits)
    from w i have ok: "server_ok (servers m ! i) (tasks m)" by (simp add: well_formed_def)
    from well_formed_new_task [OF w i rt' server_ok_assign [OF ok nb rt']]
    show ?thesis by (simp add: s ts)
  next
    case None
    from d True None obtain j where j: "server_with_shortest_queue (servers m) = Inr j"
      and s: "servers m' =
        (servers m)[j := (servers m ! j)\<lparr>queue := queue (servers m ! j) @ [length (tasks m)]\<rparr>]"
      and ts: "tasks m' = tasks m @ [t]"
      by (auto simp: arrival_dispatch_def Let_def t_def split: if_splits sum.splits)
    from server_with_shortest_queue_bound [OF j] have jl: "j < length (servers m)" .
    from w jl have ok: "server_ok (servers m ! j) (tasks m)" by (simp add: well_formed_def)
    from well_formed_new_task [OF w jl rt server_ok_enqueue [OF ok rt]]
    show ?thesis by (simp add: s ts)
  qed
qed

lemma init_well_formed:
  "well_formed (servers (QueueServerModel_init n a r k)) (tasks (QueueServerModel_init n a r k))"
  by (simp add: well_formed_def QueueServerModel_init_def ServerAgent_init_def server_ok_def
      consistent_def refs_def remaining_bounded_def)

lemma QueueServerModel_step_well_formed:
  assumes "QueueServerModel_step inp m = Inr m'" and "well_formed (servers m) (tasks m)"
  shows "well_formed (servers m') (tasks m')"
proof -
  from assms(1) obtain m1 ss ts where d: "arrival_dispatch inp m = Inr m1"
    and s: "schedule_step (current_step m1) (activation inp) (servers m1, tasks m1) = Inr (ss, ts)"
    and m': "m' = clock_advance (stats_update (m1\<lparr>servers := ss, tasks := ts\<rparr>))"
    by (auto simp: QueueServerModel_step_def split: sum.splits)
  from m' have "servers m' = ss \<and> tasks m' = ts"
    by (simp add: clock_advance_def stats_update_def Let_def split: prod.splits)
  with schedule_step_well_formed [OF s arrival_dispatch_well_formed [OF d assms(2)]]
  show ?thesis by simp
qed

lemma reachable_well_formed: "reachable m \<Longrightarrow> well_formed (servers m) (tasks m)"
proof (induction rule: reachable.induct)
  case (init n a r k)
  show ?case by (rule init_well_formed)
next
  case (step m inp m')
  from QueueServerModel_step_well_formed [OF step.hyps(3) step.IH] show ?case .
qed

section \<open>Runs and the example\<close>

lemmas eval_defs = QueueServerModel_step_def arrival_dispatch_def find_available_server_def
  QueueServerModel_init_def ServerAgent_init_def TaskAgent_init_def py_int_def begin_service_def
  complete_service_def serve_tick_def start_queued_def ServerAgent_step_def stats_update_def
  clock_advance_def server_with_shortest_queue_def Let_def

lemma example_steps:
  "steps example_inputs (QueueServerModel_init 1 (1 / 2) 1 5) = Inr example_after_3"
  by (simp add: example_inputs_def example_after_3_def eval_defs)

lemma arrival_dispatch_length_servers:
  "arrival_dispatch inp m = Inr m' \<Longrightarrow> length (servers m') = length (servers m)"
  by (auto simp: arrival_dispatch_def Let_def begin_service_def
      split: if_splits option.splits sum.splits)

lemma QueueServerModel_step_length_servers:
  assumes "QueueServerModel_step inp m = Inr m'"
  shows "length (servers m') = length (servers m)"
proof -
  from assms obtain m1 ss ts where d: "arrival_dispatch inp m = Inr m1"
    and s: "schedule_step (current_step m1) (activation inp) (servers m1, tasks m1) = Inr (ss, ts)"
    and m': "m' = clock_advance (stats_update (m1\<lparr>servers := ss, tasks := ts\<rparr>))"
    by (auto simp: QueueServerModel_step_def split: sum.splits)
  from m' have "servers m' = ss"
    by (simp add: clock_advance_def stats_update_def Let_def split: prod.splits)
  with schedule_step_lengths [OF s] arrival_dispatch_length_servers [OF d] show ?thesis by simp
qed

lemma reachable_steps:
  "reachable m \<Longrightarrow> \<forall>inp\<in>set inps. valid_input m inp \<Longrightarrow> steps inps m = Inr m' \<Longrightarrow>
     reachable m'"
proof (induction inps arbitrary: m)
  case Nil
  then show ?case by simp
next
  case (Cons inp inps)
  from Cons.prems(3) obtain m1 where s: "QueueServerModel_step inp m = Inr m1"
    and r: "steps inps m1 = Inr m'"
    by (auto split: sum.splits)
  from Cons.prems(1,2) s have 1: "reachable m1" by (auto intro: reachable.step)
  from QueueServerModel_step_length_servers [OF s] Cons.prems(2)
  have 2: "\<forall>inp\<in>set inps. valid_input m1 inp" by (simp add: valid_input_def)
  from Cons.IH [OF 1 2 r] show ?case .
qed

lemma example_reachable: "reachable example_after_3"
proof -
  have "\<forall>inp\<in>set example_inputs. valid_input (QueueServerModel_init 1 (1 / 2) 1 5) inp"
    by (simp add: example_inputs_def valid_input_def QueueServerModel_init_def)
  from reachable_steps [OF reachable.init this example_steps] show ?thesis .
qed

section \<open>Busy servers and current tasks\<close>

lemma begin_service_consistent: "consistent (fst (begin_service cs self k (s, ts)))"
  by (simp add: begin_service_def consistent_def)

lemma complete_service_consistent:
  "complete_service (s, ts) = Inr (s', ts') \<Longrightarrow> consistent s'"
  by (auto simp: complete_service_def consistent_def split: option.splits)

lemma serve_tick_consistent:
  "serve_tick (s, ts) = Inr (s', ts') \<Longrightarrow> consistent s \<Longrightarrow> consistent s'"
  by (auto simp: serve_tick_def complete_service_def consistent_def Let_def
      split: if_splits option.splits)

lemma start_queued_consistent:
  "start_queued cs self (s, ts) = (s', ts') \<Longrightarrow> consistent s \<Longrightarrow> consistent s'"
  by (auto simp: start_queued_def begin_service_def consistent_def
      split: if_splits list.splits)

lemma ServerAgent_step_consistent:
  assumes "ServerAgent_step cs self (s, ts) = Inr (s', ts')" and "consistent s"
  shows "consistent s'"
proof -
  from assms(1) obtain s1 ts1 where t: "serve_tick (s, ts) = Inr (s1, ts1)"
    and q: "start_queued cs self (s1, ts1) = (s', ts')"
    by (auto simp: ServerAgent_step_def split: sum.splits)
  from start_queued_consistent [OF q serve_tick_consistent [OF t assms(2)]] show ?thesis .
qed

lemma reachable_consistent:
  assumes "reachable m" and "s \<in> set (servers m)"
  shows "consistent s"
proof -
  from assms(2) obtain i where "i < length (servers m)" "s = servers m ! i"
    by (auto simp: in_set_conv_nth)
  with reachable_well_formed [OF assms(1)] show ?thesis
    by (simp add: well_formed_def server_ok_def)
qed

text \<open>
  Claim C5. In every state a model reaches, every server is busy exactly when it has a
  current task. The operations keep it so: a new server is idle with no current task,
  \<^verbatim>\<open>begin_service\<close> (assignment of a new task and dequeue) sets both, \<^verbatim>\<open>complete_service\<close>
  clears both, and a server activation keeps the equivalence.
\<close>

theorem busy_iff_current_task:
  "(reachable m \<longrightarrow> (\<forall>s\<in>set (servers m). busy s \<longleftrightarrow> current_task s \<noteq> None)) \<and>
   consistent (ServerAgent_init uid) \<and>
   consistent (fst (begin_service cs self k (s, ts))) \<and>
   (complete_service (s, ts) = Inr (s', ts') \<longrightarrow> consistent s') \<and>
   (consistent s \<and> ServerAgent_step cs self (s, ts) = Inr (s', ts') \<longrightarrow> consistent s')"
proof (intro conjI impI ballI)
  fix x assume "reachable m" "x \<in> set (servers m)"
  then have "consistent x" by (rule reachable_consistent)
  then show "busy x \<longleftrightarrow> current_task x \<noteq> None" by (simp add: consistent_def)
next
  show "consistent (ServerAgent_init uid)" by (simp add: ServerAgent_init_def consistent_def)
next
  show "consistent (fst (begin_service cs self k (s, ts)))" by (rule begin_service_consistent)
next
  assume "complete_service (s, ts) = Inr (s', ts')"
  then show "consistent s'" by (rule complete_service_consistent)
next
  assume "consistent s \<and> ServerAgent_step cs self (s, ts) = Inr (s', ts')"
  then show "consistent s'" using ServerAgent_step_consistent by blast
qed

theorem busy_iff_current_task_witness:
  "reachable example_after_3 \<and>
   busy (servers example_after_3 ! 0) \<and> current_task (servers example_after_3 ! 0) = Some 1 \<and>
   consistent (servers example_after_3 ! 0) \<and>
   complete_service (servers example_after_3 ! 0, tasks example_after_3) =
     Inr (\<lparr>unique_id = 0, busy = False, current_task = None, total_service_time = 5,
           queue = [], total_tasks_served = 2\<rparr>, tasks example_after_3) \<and>
   consistent \<lparr>unique_id = 0, busy = False, current_task = None, total_service_time = 5,
           queue = [], total_tasks_served = 2\<rparr> \<and>
   ServerAgent_step 3 0 (servers example_after_3 ! 0, tasks example_after_3) =
     Inr (servers example_after_3 ! 0,
          (tasks example_after_3)[1 := (tasks example_after_3 ! 1)\<lparr>remaining_service_time := 1\<rparr>])"
  using example_reachable
    busy_iff_current_task [of example_after_3 0 3 0 0 "servers example_after_3 ! 0"
      "tasks example_after_3"
      "\<lparr>unique_id = 0, busy = False, current_task = None, total_service_time = 5,
        queue = [], total_tasks_served = 2\<rparr>" "tasks example_after_3"]
    busy_iff_current_task [of example_after_3 0 3 0 0 "servers example_after_3 ! 0"
      "tasks example_after_3" "servers example_after_3 ! 0"
      "(tasks example_after_3)[1 := (tasks example_after_3 ! 1)\<lparr>remaining_service_time := 1\<rparr>]"]
  by (simp add: example_after_3_def complete_service_def ServerAgent_step_def serve_tick_def
      start_queued_def consistent_def Let_def)

section \<open>Remaining service time\<close>

lemma example_zero_service_step:
  "QueueServerModel_step \<lparr>arrival_draw = 1 / 4, service_draw = 1 / 2, activation = [0]\<rparr>
     (QueueServerModel_init 1 (1 / 2) 1 5) = Inr example_zero_service"
  by (simp add: example_zero_service_def eval_defs)

lemma example_zero_service_reachable: "reachable example_zero_service"
proof -
  have "valid_input (QueueServerModel_init 1 (1 / 2) 1 5)
          \<lparr>arrival_draw = 1 / 4, service_draw = 1 / 2, activation = [0]\<rparr>"
    by (simp add: valid_input_def QueueServerModel_init_def)
  from reachable.step [OF reachable.init this example_zero_service_step] show ?thesis .
qed

lemma remaining_bounded_nth:
  assumes "remaining_bounded ts" and "k < length ts"
  shows "(1 \<le> initial_service_time (ts ! k) \<longrightarrow> 0 \<le> remaining_service_time (ts ! k)) \<and>
         (initial_service_time (ts ! k) \<le> 0 \<longrightarrow>
            initial_service_time (ts ! k) - 1 \<le> remaining_service_time (ts ! k))"
proof -
  from assms have "min 0 (initial_service_time (ts ! k) - 1) \<le> remaining_service_time (ts ! k)"
    by (simp add: remaining_bounded_def)
  then show ?thesis by (auto simp: min_def split: if_splits)
qed

text \<open>
  Claim C7, as the code has it. A task that was created with a service time of at least
  1 never has a negative remaining service time, and a task that was created with a
  service time of 0 or less never has a remaining service time below its service time
  less 1 (so not below -1 for a service time of 0): not in any state a model reaches,
  and not after the dispatch or after any number of server activations inside a step.
\<close>

theorem remaining_never_negative:
  assumes "reachable m"
  shows "(\<forall>k<length (tasks m).
            (1 \<le> initial_service_time (tasks m ! k) \<longrightarrow>
               0 \<le> remaining_service_time (tasks m ! k)) \<and>
            (initial_service_time (tasks m ! k) \<le> 0 \<longrightarrow>
               initial_service_time (tasks m ! k) - 1 \<le> remaining_service_time (tasks m ! k))) \<and>
         (arrival_dispatch inp m = Inr m1 \<and>
          schedule_step (current_step m1) is (servers m1, tasks m1) = Inr (ss, ts) \<longrightarrow>
            (\<forall>k<length ts.
               (1 \<le> initial_service_time (ts ! k) \<longrightarrow> 0 \<le> remaining_service_time (ts ! k)) \<and>
               (initial_service_time (ts ! k) \<le> 0 \<longrightarrow>
                  initial_service_time (ts ! k) - 1 \<le> remaining_service_time (ts ! k))))"
proof (intro conjI impI)
  from reachable_well_formed [OF assms] have "remaining_bounded (tasks m)"
    by (simp add: well_formed_def)
  then show "\<forall>k<length (tasks m).
            (1 \<le> initial_service_time (tasks m ! k) \<longrightarrow>
               0 \<le> remaining_service_time (tasks m ! k)) \<and>
            (initial_service_time (tasks m ! k) \<le> 0 \<longrightarrow>
               initial_service_time (tasks m ! k) - 1 \<le> remaining_service_time (tasks m ! k))"
    using remaining_bounded_nth by blast
next
  assume a: "arrival_dispatch inp m = Inr m1 \<and>
          schedule_step (current_step m1) is (servers m1, tasks m1) = Inr (ss, ts)"
  then have "well_formed (servers m1) (tasks m1)"
    using arrival_dispatch_well_formed reachable_well_formed [OF assms] by blast
  with a have "well_formed ss ts" using schedule_step_well_formed by blast
  then have "remaining_bounded ts" by (simp add: well_formed_def)
  then show "\<forall>k<length ts.
               (1 \<le> initial_service_time (ts ! k) \<longrightarrow> 0 \<le> remaining_service_time (ts ! k)) \<and>
               (initial_service_time (ts ! k) \<le> 0 \<longrightarrow>
                  initial_service_time (ts ! k) - 1 \<le> remaining_service_time (ts ! k))"
    using remaining_bounded_nth by blast
qed

theorem remaining_never_negative_witness:
  "reachable example_after_3 \<and> 1 \<le> initial_service_time (tasks example_after_3 ! 1) \<and>
   0 \<le> remaining_service_time (tasks example_after_3 ! 1) \<and>
   arrival_dispatch \<lparr>arrival_draw = 3 / 4, service_draw = 0, activation = [0]\<rparr> example_after_3 =
     Inr example_after_3 \<and>
   schedule_step 3 [0] (servers example_after_3, tasks example_after_3) =
     Inr (servers example_after_3,
          (tasks example_after_3)[1 := (tasks example_after_3 ! 1)\<lparr>remaining_service_time := 1\<rparr>]) \<and>
   reachable example_zero_service \<and>
   initial_service_time (tasks example_zero_service ! 0) = 0 \<and>
   remaining_service_time (tasks example_zero_service ! 0) = - 1"
  using example_reachable example_zero_service_reachable
    remaining_never_negative [of example_after_3
      "\<lparr>arrival_draw = 3 / 4, service_draw = 0, activation = [0]\<rparr>" example_after_3 "[0]"
      "servers example_after_3"
      "(tasks example_after_3)[1 := (tasks example_after_3 ! 1)\<lparr>remaining_service_time := 1\<rparr>]"]
    remaining_never_negative [of example_zero_service
      "\<lparr>arrival_draw = 3 / 4, service_draw = 0, activation = [0]\<rparr>" example_zero_service "[]"
      "servers example_zero_service" "tasks example_zero_service"]
  by (simp add: example_after_3_def example_zero_service_def arrival_dispatch_def
      ServerAgent_step_def serve_tick_def start_queued_def Let_def)

theorem remaining_negative_counterexample:
  "QueueServerModel_step \<lparr>arrival_draw = 1 / 4, service_draw = 1 / 2, activation = [0]\<rparr>
     (QueueServerModel_init 1 (1 / 2) 1 5) =
   Inr \<lparr>num_servers = 1, task_arrival_rate = 1 / 2, task_service_rate = 1, max_steps = 5,
        running = True, current_step = 1, total_queue_wait_time = 0, total_time_in_system = 0,
        total_tasks = 1,
        servers = [\<lparr>unique_id = 0, busy = False, current_task = None, total_service_time = 0,
                    queue = [], total_tasks_served = 1\<rparr>],
        tasks = [\<lparr>task_unique_id = 0, initial_service_time = 0, remaining_service_time = - 1,
                  assigned_server = Some 0, arrival_time = 0, queue_wait_time = 0\<rparr>]\<rparr>"
  by (simp add: eval_defs)

section \<open>Averages and runs without arrivals\<close>

lemma step_without_arrival:
  assumes "\<not> arrival_draw inp < task_arrival_rate m"
  shows "\<exists>m'. QueueServerModel_step inp m = Inr m' \<and> total_tasks m' = total_tasks m \<and>
           task_arrival_rate m' = task_arrival_rate m"
proof -
  from assms have d: "arrival_dispatch inp m = Inr m" by (simp add: arrival_dispatch_def)
  obtain ss ts where "schedule_step (current_step m) (activation inp) (servers m, tasks m) = Inr (ss, ts)"
    using schedule_step_total by blast
  with d show ?thesis
    by (simp add: QueueServerModel_step_def clock_advance_def stats_update_def Let_def
        split: prod.splits)
qed

lemma run_without_arrival:
  "\<forall>i. \<not> arrival_draw (rnd i) < task_arrival_rate m \<Longrightarrow>
     \<exists>m'. run rnd n m = Inr m' \<and> \<not> running m' \<and> total_tasks m' = total_tasks m"
proof (induction rnd n m rule: run.induct)
  case (1 rnd n m)
  show ?case
  proof (cases "running m")
    case False
    then show ?thesis by simp
  next
    case True
    from "1.prems" have "\<not> arrival_draw (rnd n) < task_arrival_rate m" by simp
    from step_without_arrival [OF this] obtain m1
      where s: "QueueServerModel_step (rnd n) m = Inr m1"
        and t: "total_tasks m1 = total_tasks m" "task_arrival_rate m1 = task_arrival_rate m"
      by blast
    from "1.prems" t(2) have "\<forall>i. \<not> arrival_draw (rnd i) < task_arrival_rate m1" by simp
    from "1.IH" [OF True s this] obtain m' where "run rnd (Suc n) m1 = Inr m'"
      "\<not> running m'" "total_tasks m' = total_tasks m1" by blast
    with True s t(1) show ?thesis by simp
  qed
qed

text \<open>
  Claim C9. With \<^verbatim>\<open>total_tasks == 0\<close> both average queries return 0 and do not divide.
  A run of the driver loop in which no draw produces an arrival ends without an error,
  with the model stopped and both averages 0.
\<close>

theorem averages_zero_without_tasks:
  "(total_tasks m = 0 \<longrightarrow> get_avg_time_in_queue m = 0 \<and> get_avg_time_in_system m = 0) \<and>
   ((\<forall>i. \<not> arrival_draw (rnd i) < a) \<longrightarrow>
      (\<exists>m'. run rnd 0 (QueueServerModel_init n a r k) = Inr m' \<and> \<not> running m' \<and>
            total_tasks m' = 0 \<and> get_avg_time_in_queue m' = 0 \<and> get_avg_time_in_system m' = 0))"
proof (intro conjI impI)
  assume "total_tasks m = 0"
  then show "get_avg_time_in_queue m = 0" by (simp add: get_avg_time_in_queue_def)
next
  assume "total_tasks m = 0"
  then show "get_avg_time_in_system m = 0" by (simp add: get_avg_time_in_system_def)
next
  assume "\<forall>i. \<not> arrival_draw (rnd i) < a"
  then have "\<forall>i. \<not> arrival_draw (rnd i) < task_arrival_rate (QueueServerModel_init n a r k)"
    by (simp add: QueueServerModel_init_def)
  from run_without_arrival [OF this, of 0] obtain m'
    where "run rnd 0 (QueueServerModel_init n a r k) = Inr m'" "\<not> running m'"
      "total_tasks m' = total_tasks (QueueServerModel_init n a r k)" by blast
  then show "\<exists>m'. run rnd 0 (QueueServerModel_init n a r k) = Inr m' \<and> \<not> running m' \<and>
            total_tasks m' = 0 \<and> get_avg_time_in_queue m' = 0 \<and> get_avg_time_in_system m' = 0"
    by (auto simp: QueueServerModel_init_def get_avg_time_in_queue_def get_avg_time_in_system_def)
qed

theorem averages_zero_without_tasks_witness:
  "total_tasks (QueueServerModel_init 1 0 1 2) = 0 \<and>
   get_avg_time_in_queue (QueueServerModel_init 1 0 1 2) = 0 \<and>
   get_avg_time_in_system (QueueServerModel_init 1 0 1 2) = 0 \<and>
   run (\<lambda>i. \<lparr>arrival_draw = 1 / 2, service_draw = 0, activation = [0]\<rparr>) 0
       (QueueServerModel_init 1 0 1 2) =
     Inr ((QueueServerModel_init 1 0 1 2)\<lparr>current_step := 2, running := False\<rparr>) \<and>
   get_avg_time_in_queue ((QueueServerModel_init 1 0 1 2)\<lparr>current_step := 2, running := False\<rparr>) = 0 \<and>
   get_avg_time_in_system ((QueueServerModel_init 1 0 1 2)\<lparr>current_step := 2, running := False\<rparr>) = 0"
  using averages_zero_without_tasks [of "QueueServerModel_init 1 0 1 2"
      "\<lambda>i. \<lparr>arrival_draw = 1 / 2, service_draw = 0, activation = [0]\<rparr>" 0 1 1 2]
  by (simp add: eval_defs get_avg_time_in_queue_def get_avg_time_in_system_def)

section \<open>Statistics\<close>

lemma sum_list_map_update:
  fixes f :: "'a \<Rightarrow> int"
  shows "i < length xs \<Longrightarrow>
    sum_list (map f (xs[i := x])) = sum_list (map f xs) - f (xs ! i) + f x"
proof (induction xs arbitrary: i)
  case Nil
  then show ?case by simp
next
  case (Cons y ys)
  then show ?case by (cases i) auto
qed

lemma serve_tick_load:
  "serve_tick (s, ts) = Inr (s', ts') \<Longrightarrow> consistent s \<Longrightarrow>
     total_tasks_served s' + tasks_held s' = total_tasks_served s + tasks_held s"
  by (auto simp: serve_tick_def complete_service_def consistent_def tasks_held_def Let_def
      split: if_splits option.splits)

lemma start_queued_load:
  "start_queued cs self (s, ts) = (s', ts') \<Longrightarrow> consistent s \<Longrightarrow>
     total_tasks_served s' + tasks_held s' = total_tasks_served s + tasks_held s"
  by (auto simp: start_queued_def begin_service_def consistent_def tasks_held_def
      split: if_splits list.splits)

lemma ServerAgent_step_load:
  assumes "ServerAgent_step cs self (s, ts) = Inr (s', ts')" and "consistent s"
  shows "total_tasks_served s' + tasks_held s' = total_tasks_served s + tasks_held s"
proof -
  from assms(1) obtain s1 ts1 where t: "serve_tick (s, ts) = Inr (s1, ts1)"
    and q: "start_queued cs self (s1, ts1) = (s', ts')"
    by (auto simp: ServerAgent_step_def split: sum.splits)
  from start_queued_load [OF q serve_tick_consistent [OF t assms(2)]]
    serve_tick_load [OF t assms(2)]
  show ?thesis by simp
qed

lemma schedule_step_load:
  "schedule_step cs is (ss, ts) = Inr (ss', ts') \<Longrightarrow> well_formed ss ts \<Longrightarrow>
     (\<Sum>s\<leftarrow>ss'. total_tasks_served s + tasks_held s) =
     (\<Sum>s\<leftarrow>ss. total_tasks_served s + tasks_held s)"
proof (induction "is" arbitrary: ss ts)
  case Nil
  then show ?case by simp
next
  case (Cons i "is")
  show ?case
  proof (cases "i < length ss")
    case False
    with Cons.prems Cons.IH show ?thesis by simp
  next
    case True
    with Cons.prems(1) obtain s1 ts1 where t: "ServerAgent_step cs i (ss ! i, ts) = Inr (s1, ts1)"
      and r: "schedule_step cs is (ss[i := s1], ts1) = Inr (ss', ts')"
      by (auto split: sum.splits)
    from Cons.prems(2) True have "consistent (ss ! i)"
      by (simp add: well_formed_def server_ok_def)
    from ServerAgent_step_load [OF t this]
    have "(\<Sum>s\<leftarrow>ss[i := s1]. total_tasks_served s + tasks_held s) =
          (\<Sum>s\<leftarrow>ss. total_tasks_served s + tasks_held s)"
      using True by (simp add: sum_list_map_update)
    with Cons.IH [OF r well_formed_tick [OF Cons.prems(2) True t]] show ?thesis by simp
  qed
qed

lemma arrival_dispatch_load:
  assumes d: "arrival_dispatch inp m = Inr m'" and w: "well_formed (servers m) (tasks m)"
  shows "(\<Sum>s\<leftarrow>servers m'. total_tasks_served s + tasks_held s) - total_tasks m' =
         (\<Sum>s\<leftarrow>servers m. total_tasks_served s + tasks_held s) - total_tasks m"
proof (cases "arrival_draw inp < task_arrival_rate m")
  case False
  with d show ?thesis by (simp add: arrival_dispatch_def)
next
  case True
  show ?thesis
  proof (cases "find_available_server m")
    case (Some i)
    from find_available_server_Some [OF Some]
    have i: "i < length (servers m)" and nb: "\<not> busy (servers m ! i)" by auto
    from w i have "consistent (servers m ! i)" by (simp add: well_formed_def server_ok_def)
    with nb have c: "current_task (servers m ! i) = None" by (simp add: consistent_def)
    from d True Some have s: "servers m' =
        (servers m)[i := (servers m ! i)\<lparr>busy := True, current_task := Some (length (tasks m))\<rparr>]"
      and t: "total_tasks m' = total_tasks m + 1"
      by (auto simp: arrival_dispatch_def Let_def begin_service_def split: if_splits)
    show ?thesis using i c by (simp add: s t sum_list_map_update tasks_held_def)
  next
    case None
    from d True None obtain j where j: "server_with_shortest_queue (servers m) = Inr j"
      and s: "servers m' =
        (servers m)[j := (servers m ! j)\<lparr>queue := queue (servers m ! j) @ [length (tasks m)]\<rparr>]"
      and t: "total_tasks m' = total_tasks m + 1"
      by (auto simp: arrival_dispatch_def Let_def split: if_splits sum.splits)
    from server_with_shortest_queue_bound [OF j] have "j < length (servers m)" .
    then show ?thesis by (simp add: s t sum_list_map_update tasks_held_def)
  qed
qed

lemma QueueServerModel_step_load:
  assumes "QueueServerModel_step inp m = Inr m'" and w: "well_formed (servers m) (tasks m)"
  shows "(\<Sum>s\<leftarrow>servers m'. total_tasks_served s + tasks_held s) - total_tasks m' =
         (\<Sum>s\<leftarrow>servers m. total_tasks_served s + tasks_held s) - total_tasks m"
proof -
  from assms(1) obtain m1 ss ts where d: "arrival_dispatch inp m = Inr m1"
    and s: "schedule_step (current_step m1) (activation inp) (servers m1, tasks m1) = Inr (ss, ts)"
    and m': "m' = clock_advance (stats_update (m1\<lparr>servers := ss, tasks := ts\<rparr>))"
    by (auto simp: QueueServerModel_step_def split: sum.splits)
  from m' have e: "servers m' = ss \<and> total_tasks m' = total_tasks m1"
    by (simp add: clock_advance_def stats_update_def Let_def split: prod.splits)
  from schedule_step_load [OF s arrival_dispatch_well_formed [OF d w]]
    arrival_dispatch_load [OF d w] e
  show ?thesis by simp
qed

lemma reachable_load:
  "reachable m \<Longrightarrow> (\<Sum>s\<leftarrow>servers m. total_tasks_served s + tasks_held s) = total_tasks m"
proof (induction rule: reachable.induct)
  case (init n a r k)
  show ?case
    by (simp add: QueueServerModel_init_def ServerAgent_init_def tasks_held_def comp_def)
next
  case (step m inp m')
  from QueueServerModel_step_load [OF step.hyps(3) reachable_well_formed [OF step.hyps(1)]]
    step.IH
  show ?case by simp
qed

text \<open>
  Claim C4, as the code has it. \<^verbatim>\<open>total_tasks\<close> counts arrivals: it is incremented when
  a task is created. In every state a model reaches, the tasks served by all servers,
  plus the tasks that the servers hold as current task or in their queues, are the
  \<^verbatim>\<open>total_tasks\<close>; so the served tasks are at most \<^verbatim>\<open>total_tasks\<close>.
\<close>

theorem served_plus_held_is_total:
  assumes "reachable m"
  shows "(\<Sum>s\<leftarrow>servers m. total_tasks_served s) + (\<Sum>s\<leftarrow>servers m. tasks_held s) = total_tasks m \<and>
         (\<Sum>s\<leftarrow>servers m. total_tasks_served s) \<le> total_tasks m"
proof -
  have "0 \<le> (\<Sum>s\<leftarrow>servers m. tasks_held s)"
    by (rule sum_list_nonneg) (auto simp: tasks_held_def)
  with reachable_load [OF assms] show ?thesis by (simp add: sum_list_addf)
qed

theorem served_plus_held_is_total_witness:
  "reachable example_after_3 \<and>
   (\<Sum>s\<leftarrow>servers example_after_3. total_tasks_served s) = 1 \<and>
   (\<Sum>s\<leftarrow>servers example_after_3. tasks_held s) = 1 \<and>
   total_tasks example_after_3 = 2"
  using example_reachable served_plus_held_is_total [of example_after_3]
  by (simp add: example_after_3_def tasks_held_def)

theorem total_tasks_counts_arrivals_counterexample:
  "QueueServerModel_step \<lparr>arrival_draw = 1 / 4, service_draw = 3, activation = [0]\<rparr>
     (QueueServerModel_init 1 (1 / 2) 1 5) =
   Inr \<lparr>num_servers = 1, task_arrival_rate = 1 / 2, task_service_rate = 1, max_steps = 5,
        running = True, current_step = 1, total_queue_wait_time = 0, total_time_in_system = 0,
        total_tasks = 1,
        servers = [\<lparr>unique_id = 0, busy = True, current_task = Some 0, total_service_time = 0,
                    queue = [], total_tasks_served = 0\<rparr>],
        tasks = [\<lparr>task_unique_id = 0, initial_service_time = 3, remaining_service_time = 2,
                  assigned_server = Some 0, arrival_time = 0, queue_wait_time = 0\<rparr>]\<rparr>"
  by (simp add: eval_defs)

lemma stats_loop_sums:
  "stats_loop cs ts (w, y) =
     (w + (\<Sum>t\<leftarrow>filter (\<lambda>t. assigned_server t \<noteq> None) ts. queue_wait_time t),
      y + (\<Sum>t\<leftarrow>filter (\<lambda>t. assigned_server t \<noteq> None) ts. cs - arrival_time t))"
  by (induction ts arbitrary: w y) auto

text \<open>
  Claim C3, evaluated on the example run. After two steps no task is completed, yet
  \<^verbatim>\<open>total_time_in_system\<close> is 1. After three steps only task 0 is completed, with a
  queue wait of 0 and 2 steps in the system, but the totals are 1 and 4: the loop adds
  every task that has started service, completed or not, again in every step.
\<close>

theorem totals_on_example_run:
  "steps (take 2 example_inputs) (QueueServerModel_init 1 (1 / 2) 1 5) =
     Inr \<lparr>num_servers = 1, task_arrival_rate = 1 / 2, task_service_rate = 1, max_steps = 5,
          running = True, current_step = 2, total_queue_wait_time = 0, total_time_in_system = 1,
          total_tasks = 2,
          servers = [\<lparr>unique_id = 0, busy = True, current_task = Some 0, total_service_time = 0,
                      queue = [1], total_tasks_served = 0\<rparr>],
          tasks = [\<lparr>task_unique_id = 0, initial_service_time = 3, remaining_service_time = 1,
                    assigned_server = Some 0, arrival_time = 0, queue_wait_time = 0\<rparr>,
                   \<lparr>task_unique_id = 1, initial_service_time = 2, remaining_service_time = 2,
                    assigned_server = None, arrival_time = 1, queue_wait_time = 0\<rparr>]\<rparr> \<and>
   steps example_inputs (QueueServerModel_init 1 (1 / 2) 1 5) = Inr example_after_3 \<and>
   total_queue_wait_time example_after_3 = 1 \<and>
   total_time_in_system example_after_3 = 4 \<and>
   map total_tasks_served (servers example_after_3) = [1] \<and>
   map current_task (servers example_after_3) = [Some 1] \<and>
   map queue_wait_time (tasks example_after_3) = [0, 1] \<and>
   map arrival_time (tasks example_after_3) = [0, 1]"
proof -
  have "steps (take 2 example_inputs) (QueueServerModel_init 1 (1 / 2) 1 5) =
     Inr \<lparr>num_servers = 1, task_arrival_rate = 1 / 2, task_service_rate = 1, max_steps = 5,
          running = True, current_step = 2, total_queue_wait_time = 0, total_time_in_system = 1,
          total_tasks = 2,
          servers = [\<lparr>unique_id = 0, busy = True, current_task = Some 0, total_service_time = 0,
                      queue = [1], total_tasks_served = 0\<rparr>],
          tasks = [\<lparr>task_unique_id = 0, initial_service_time = 3, remaining_service_time = 1,
                    assigned_server = Some 0, arrival_time = 0, queue_wait_time = 0\<rparr>,
                   \<lparr>task_unique_id = 1, initial_service_time = 2, remaining_service_time = 2,
                    assigned_server = None, arrival_time = 1, queue_wait_time = 0\<rparr>]\<rparr>"
    by (simp add: example_inputs_def eval_defs)
  with example_steps show ?thesis by (simp add: example_after_3_def)
qed

section \<open>Dispatch and the ticks of the same step\<close>

lemma nth_list_update_any:
  "xs[i := x] ! k = (if k = i \<and> i < length xs then x else xs ! k)"
  by (cases "i < length xs") (auto simp: nth_list_update list_update_beyond)

lemma serve_tick_remaining:
  "serve_tick (s, ts) = Inr (s', ts') \<Longrightarrow>
     length ts' = length ts \<and>
     remaining_service_time (ts' ! k) =
       (if busy s \<and> current_task s = Some k \<and> k < length ts
        then remaining_service_time (ts ! k) - 1 else remaining_service_time (ts ! k))"
  by (auto simp: serve_tick_def complete_service_def Let_def nth_list_update_any
      split: if_splits option.splits)

lemma start_queued_remaining_nth:
  "start_queued cs self (s, ts) = (s', ts') \<Longrightarrow>
     length ts' = length ts \<and> remaining_service_time (ts' ! k) = remaining_service_time (ts ! k)"
  by (auto simp: start_queued_def begin_service_def nth_list_update_any
      split: if_splits list.splits)

lemma ServerAgent_step_remaining:
  assumes "ServerAgent_step cs self (s, ts) = Inr (s', ts')"
  shows "length ts' = length ts"
    and "remaining_service_time (ts' ! k) =
       (if busy s \<and> current_task s = Some k \<and> k < length ts
        then remaining_service_time (ts ! k) - 1 else remaining_service_time (ts ! k))"
proof -
  from assms obtain s1 ts1 where t: "serve_tick (s, ts) = Inr (s1, ts1)"
    and q: "start_queued cs self (s1, ts1) = (s', ts')"
    by (auto simp: ServerAgent_step_def split: sum.splits)
  from serve_tick_remaining [OF t, of k] start_queued_remaining_nth [OF q, of k]
  show "length ts' = length ts"
    and "remaining_service_time (ts' ! k) =
       (if busy s \<and> current_task s = Some k \<and> k < length ts
        then remaining_service_time (ts ! k) - 1 else remaining_service_time (ts ! k))"
    by simp_all
qed

lemma schedule_step_untouched:
  "schedule_step cs is (ss, ts) = Inr (ss', ts') \<Longrightarrow> distinct is \<Longrightarrow>
   \<forall>i\<in>set is. i < length ss \<longrightarrow> current_task (ss ! i) \<noteq> Some k \<Longrightarrow>
     remaining_service_time (ts' ! k) = remaining_service_time (ts ! k)"
proof (induction "is" arbitrary: ss ts)
  case Nil
  then show ?case by simp
next
  case (Cons i "is")
  show ?case
  proof (cases "i < length ss")
    case False
    with Cons.prems Cons.IH [of ss ts] show ?thesis by simp
  next
    case True
    with Cons.prems(1) obtain s1 ts1 where t: "ServerAgent_step cs i (ss ! i, ts) = Inr (s1, ts1)"
      and r: "schedule_step cs is (ss[i := s1], ts1) = Inr (ss', ts')"
      by (auto split: sum.splits)
    from Cons.prems(3) True have "current_task (ss ! i) \<noteq> Some k" by simp
    with ServerAgent_step_remaining(2) [OF t, of k]
    have 1: "remaining_service_time (ts1 ! k) = remaining_service_time (ts ! k)" by simp
    have 2: "\<forall>j\<in>set is. j < length (ss[i := s1]) \<longrightarrow> current_task (ss[i := s1] ! j) \<noteq> Some k"
    proof (intro ballI impI)
      fix j assume j: "j \<in> set is" "j < length (ss[i := s1])"
      with Cons.prems(2) have "j \<noteq> i" by auto
      then have "ss[i := s1] ! j = ss ! j" by simp
      with Cons.prems(3) j show "current_task (ss[i := s1] ! j) \<noteq> Some k" by simp
    qed
    from Cons.prems(2) have "distinct is" by simp
    from Cons.IH [OF r this 2] 1 show ?thesis by simp
  qed
qed

lemma schedule_step_once:
  "schedule_step cs is (ss, ts) = Inr (ss', ts') \<Longrightarrow> distinct is \<Longrightarrow> i0 \<in> set is \<Longrightarrow>
   i0 < length ss \<Longrightarrow> busy (ss ! i0) \<Longrightarrow> current_task (ss ! i0) = Some k \<Longrightarrow> k < length ts \<Longrightarrow>
   \<forall>j\<in>set is. j \<noteq> i0 \<longrightarrow> j < length ss \<longrightarrow> current_task (ss ! j) \<noteq> Some k \<Longrightarrow>
     remaining_service_time (ts' ! k) = remaining_service_time (ts ! k) - 1"
proof (induction "is" arbitrary: ss ts)
  case Nil
  then show ?case by simp
next
  case (Cons i "is")
  from Cons.prems(2) have d: "distinct is" and ni: "i \<notin> set is" by auto
  show ?case
  proof (cases "i = i0")
    case True
    with Cons.prems(1,4) obtain s1 ts1
      where t: "ServerAgent_step cs i0 (ss ! i0, ts) = Inr (s1, ts1)"
        and r: "schedule_step cs is (ss[i0 := s1], ts1) = Inr (ss', ts')"
      by (auto split: sum.splits)
    from ServerAgent_step_remaining(2) [OF t, of k] Cons.prems(5,6,7)
    have 1: "remaining_service_time (ts1 ! k) = remaining_service_time (ts ! k) - 1" by simp
    have 2: "\<forall>j\<in>set is. j < length (ss[i0 := s1]) \<longrightarrow>
        current_task (ss[i0 := s1] ! j) \<noteq> Some k"
    proof (intro ballI impI)
      fix j assume j: "j \<in> set is" "j < length (ss[i0 := s1])"
      with ni True have n: "j \<noteq> i0" by auto
      then have "ss[i0 := s1] ! j = ss ! j" by simp
      with Cons.prems(8) j n show "current_task (ss[i0 := s1] ! j) \<noteq> Some k" by simp
    qed
    from schedule_step_untouched [OF r d 2] 1 show ?thesis by simp
  next
    case False
    with Cons.prems(3) have m: "i0 \<in> set is" by simp
    show ?thesis
    proof (cases "i < length ss")
      case False
      with Cons.prems(1) have r: "schedule_step cs is (ss, ts) = Inr (ss', ts')" by simp
      from Cons.prems(8) have "\<forall>j\<in>set is. j \<noteq> i0 \<longrightarrow> j < length ss \<longrightarrow>
          current_task (ss ! j) \<noteq> Some k" by simp
      from Cons.IH [OF r d m Cons.prems(4,5,6,7) this] show ?thesis .
    next
      case True
      with Cons.prems(1) obtain s1 ts1
        where t: "ServerAgent_step cs i (ss ! i, ts) = Inr (s1, ts1)"
          and r: "schedule_step cs is (ss[i := s1], ts1) = Inr (ss', ts')"
        by (auto split: sum.splits)
      from Cons.prems(8) \<open>i \<noteq> i0\<close> True have "current_task (ss ! i) \<noteq> Some k" by simp
      with ServerAgent_step_remaining(1) [OF t] ServerAgent_step_remaining(2) [OF t, of k]
      have 1: "remaining_service_time (ts1 ! k) = remaining_service_time (ts ! k)"
        and l: "length ts1 = length ts" by simp_all
      from \<open>i \<noteq> i0\<close> have e: "ss[i := s1] ! i0 = ss ! i0" by simp
      have 2: "\<forall>j\<in>set is. j \<noteq> i0 \<longrightarrow> j < length (ss[i := s1]) \<longrightarrow>
          current_task (ss[i := s1] ! j) \<noteq> Some k"
      proof (intro ballI impI)
        fix j assume j: "j \<in> set is" "j \<noteq> i0" "j < length (ss[i := s1])"
        with ni have "j \<noteq> i" by auto
        then have "ss[i := s1] ! j = ss ! j" by simp
        with Cons.prems(8) j show "current_task (ss[i := s1] ! j) \<noteq> Some k" by simp
      qed
      have "remaining_service_time (ts' ! k) = remaining_service_time (ts1 ! k) - 1"
        using Cons.prems(4,5,6,7) e l
        by (intro Cons.IH [OF r d m _ _ _ _ 2]) simp_all
      with 1 show ?thesis by simp
    qed
  qed
qed

lemma example_step_1:
  "QueueServerModel_step \<lparr>arrival_draw = 1 / 4, service_draw = 3, activation = [0]\<rparr>
     (QueueServerModel_init 1 (1 / 2) 1 5) = Inr example_after_1"
  by (simp add: example_after_1_def eval_defs)

lemma example_step_2:
  "QueueServerModel_step \<lparr>arrival_draw = 1 / 4, service_draw = 2, activation = [0]\<rparr>
     example_after_1 = Inr example_after_2"
  by (simp add: example_after_1_def example_after_2_def eval_defs)

lemma example_after_1_reachable: "reachable example_after_1"
proof -
  have "valid_input (QueueServerModel_init 1 (1 / 2) 1 5)
          \<lparr>arrival_draw = 1 / 4, service_draw = 3, activation = [0]\<rparr>"
    by (simp add: valid_input_def QueueServerModel_init_def)
  from reachable.step [OF reachable.init this example_step_1] show ?thesis .
qed

lemma ServerAgent_step_initial:
  "ServerAgent_step cs self (s, ts) = Inr (s', ts') \<Longrightarrow>
     initial_service_time (ts' ! k) = initial_service_time (ts ! k)"
  by (auto simp: ServerAgent_step_def serve_tick_def start_queued_def begin_service_def
      complete_service_def Let_def nth_list_update_any
      split: sum.splits if_splits option.splits list.splits)

lemma schedule_step_initial:
  "schedule_step cs is (ss, ts) = Inr (ss', ts') \<Longrightarrow>
     initial_service_time (ts' ! k) = initial_service_time (ts ! k)"
proof (induction "is" arbitrary: ss ts)
  case Nil
  then show ?case by simp
next
  case (Cons i "is")
  show ?case
  proof (cases "i < length ss")
    case False
    with Cons.prems Cons.IH [of ss ts] show ?thesis by simp
  next
    case True
    with Cons.prems(1) obtain s1 ts1 where t: "ServerAgent_step cs i (ss ! i, ts) = Inr (s1, ts1)"
      and r: "schedule_step cs is (ss[i := s1], ts1) = Inr (ss', ts')"
      by (auto split: sum.splits)
    from Cons.IH [OF r] ServerAgent_step_initial [OF t, of k] show ?thesis by simp
  qed
qed

lemma arrival_dispatch_assign:
  assumes "arrival_draw inp < task_arrival_rate m" and "find_available_server m = Some i"
    and "arrival_dispatch inp m = Inr m1"
  shows "servers m1 =
      (servers m)[i := (servers m ! i)\<lparr>busy := True, current_task := Some (length (tasks m))\<rparr>]"
  using assms
  by (auto simp: arrival_dispatch_def Let_def begin_service_def split: if_splits)

lemma arrival_dispatch_enqueue:
  assumes "arrival_draw inp < task_arrival_rate m" and "find_available_server m = None"
    and "arrival_dispatch inp m = Inr m1"
  shows "\<exists>j<length (servers m). servers m1 =
      (servers m)[j := (servers m ! j)\<lparr>queue := queue (servers m ! j) @ [length (tasks m)]\<rparr>]"
proof -
  from assms obtain j where j: "server_with_shortest_queue (servers m) = Inr j"
    and s: "servers m1 =
      (servers m)[j := (servers m ! j)\<lparr>queue := queue (servers m ! j) @ [length (tasks m)]\<rparr>]"
    by (auto simp: arrival_dispatch_def Let_def split: if_splits sum.splits)
  from server_with_shortest_queue_bound [OF j] s show ?thesis by blast
qed

lemma well_formed_current_bound:
  assumes "well_formed ss ts" and "j < length ss"
  shows "current_task (ss ! j) \<noteq> Some (length ts)"
proof
  assume "current_task (ss ! j) = Some (length ts)"
  then have "length ts \<in> set (refs (ss ! j))" by (simp add: refs_def)
  moreover from assms have "server_ok (ss ! j) ts" by (simp add: well_formed_def)
  ultimately show False using server_ok_fresh by blast
qed

text \<open>
  Claim C1, as the code has it. Arrival and dispatch of a step are complete before the
  servers are activated: the activations work on the state that the dispatch leaves, in
  which the new task still has its full service time. A task that the dispatch appends
  to a queue is not decremented in that step. A task that the dispatch assigns to an
  idle server is decremented by that server's activation in the same step, so after the
  step its remaining service time is its initial service time less 1.
\<close>

theorem dispatched_task_same_step:
  assumes "reachable m" and "valid_input m inp"
    and "arrival_draw inp < task_arrival_rate m"
    and "QueueServerModel_step inp m = Inr m'"
  shows "(\<exists>m1. arrival_dispatch inp m = Inr m1 \<and>
            remaining_service_time (tasks m1 ! length (tasks m)) = py_int (service_draw inp) \<and>
            schedule_step (current_step m1) (activation inp) (servers m1, tasks m1) =
              Inr (servers m', tasks m')) \<and>
         initial_service_time (tasks m' ! length (tasks m)) = py_int (service_draw inp) \<and>
         (find_available_server m = None \<longrightarrow>
            remaining_service_time (tasks m' ! length (tasks m)) = py_int (service_draw inp)) \<and>
         (find_available_server m \<noteq> None \<longrightarrow>
            remaining_service_time (tasks m' ! length (tasks m)) = py_int (service_draw inp) - 1)"
proof -
  let ?k = "length (tasks m)"
  from assms(4) obtain m1 ss ts where d: "arrival_dispatch inp m = Inr m1"
    and s: "schedule_step (current_step m1) (activation inp) (servers m1, tasks m1) = Inr (ss, ts)"
    and m': "m' = clock_advance (stats_update (m1\<lparr>servers := ss, tasks := ts\<rparr>))"
    by (auto simp: QueueServerModel_step_def split: sum.splits)
  from m' have e: "servers m' = ss" "tasks m' = ts"
    by (simp_all add: clock_advance_def stats_update_def Let_def split: prod.splits)
  note n = arrival_dispatch_new_task [OF assms(3) d]
  from n have len: "?k < length (tasks m1)"
    and ini: "initial_service_time (tasks m1 ! ?k) = py_int (service_draw inp)"
    and rem: "remaining_service_time (tasks m1 ! ?k) = py_int (service_draw inp)" by simp_all
  note w = reachable_well_formed [OF assms(1)]
  from assms(2) have dist: "distinct (activation inp)"
    and act: "set (activation inp) = {0..<length (servers m)}" by (simp_all add: valid_input_def)
  have ls: "length (servers m1) = length (servers m)"
    using d by (rule arrival_dispatch_length_servers)
  have 1: "\<exists>m1. arrival_dispatch inp m = Inr m1 \<and>
            remaining_service_time (tasks m1 ! ?k) = py_int (service_draw inp) \<and>
            schedule_step (current_step m1) (activation inp) (servers m1, tasks m1) =
              Inr (servers m', tasks m')"
    using d rem s e by auto
  have 2: "initial_service_time (tasks m' ! ?k) = py_int (service_draw inp)"
    using schedule_step_initial [OF s, of ?k] ini e by simp
  have 3: "remaining_service_time (tasks m' ! ?k) = py_int (service_draw inp)"
    if none: "find_available_server m = None"
  proof -
    from arrival_dispatch_enqueue [OF assms(3) none d] obtain j where j: "j < length (servers m)"
      and sm1: "servers m1 =
        (servers m)[j := (servers m ! j)\<lparr>queue := queue (servers m ! j) @ [?k]\<rparr>]"
      by blast
    have "\<forall>i\<in>set (activation inp). i < length (servers m1) \<longrightarrow>
        current_task (servers m1 ! i) \<noteq> Some ?k"
    proof (intro ballI impI)
      fix i assume "i \<in> set (activation inp)" and i: "i < length (servers m1)"
      from i ls have il: "i < length (servers m)" by simp
      have "current_task (servers m1 ! i) = current_task (servers m ! i)"
        using il j by (cases "i = j") (simp_all add: sm1)
      with well_formed_current_bound [OF w il]
      show "current_task (servers m1 ! i) \<noteq> Some ?k" by simp
    qed
    from schedule_step_untouched [OF s dist this] rem e show ?thesis by simp
  qed
  have 4: "remaining_service_time (tasks m' ! ?k) = py_int (service_draw inp) - 1"
    if some: "find_available_server m \<noteq> None"
  proof -
    from some obtain i where fi: "find_available_server m = Some i" by auto
    from find_available_server_Some [OF fi] have il: "i < length (servers m)" by simp
    note sm1 = arrival_dispatch_assign [OF assms(3) fi d]
    from il act have mem: "i \<in> set (activation inp)" by simp
    from il ls have il1: "i < length (servers m1)" by simp
    from il have b: "busy (servers m1 ! i)" and c: "current_task (servers m1 ! i) = Some ?k"
      by (simp_all add: sm1)
    have o: "\<forall>j\<in>set (activation inp). j \<noteq> i \<longrightarrow> j < length (servers m1) \<longrightarrow>
        current_task (servers m1 ! j) \<noteq> Some ?k"
    proof (intro ballI impI)
      fix j assume "j \<in> set (activation inp)" and ji: "j \<noteq> i" and j: "j < length (servers m1)"
      from j ls have jl: "j < length (servers m)" by simp
      from ji have "servers m1 ! j = servers m ! j" by (simp add: sm1)
      with well_formed_current_bound [OF w jl]
      show "current_task (servers m1 ! j) \<noteq> Some ?k" by simp
    qed
    from schedule_step_once [OF s dist mem il1 b c len o] rem e show ?thesis by simp
  qed
  from 1 2 3 4 show ?thesis by blast
qed

theorem dispatched_task_same_step_witness:
  "reachable (QueueServerModel_init 1 (1 / 2) 1 5) \<and>
   valid_input (QueueServerModel_init 1 (1 / 2) 1 5)
     \<lparr>arrival_draw = 1 / 4, service_draw = 3, activation = [0]\<rparr> \<and>
   QueueServerModel_step \<lparr>arrival_draw = 1 / 4, service_draw = 3, activation = [0]\<rparr>
     (QueueServerModel_init 1 (1 / 2) 1 5) = Inr example_after_1 \<and>
   find_available_server (QueueServerModel_init 1 (1 / 2) 1 5) = Some 0 \<and>
   initial_service_time (tasks example_after_1 ! 0) = 3 \<and>
   remaining_service_time (tasks example_after_1 ! 0) = 2 \<and>
   reachable example_after_1 \<and>
   valid_input example_after_1 \<lparr>arrival_draw = 1 / 4, service_draw = 2, activation = [0]\<rparr> \<and>
   QueueServerModel_step \<lparr>arrival_draw = 1 / 4, service_draw = 2, activation = [0]\<rparr>
     example_after_1 = Inr example_after_2 \<and>
   find_available_server example_after_1 = None \<and>
   initial_service_time (tasks example_after_2 ! 1) = 2 \<and>
   remaining_service_time (tasks example_after_2 ! 1) = 2"
proof -
  have v1: "valid_input (QueueServerModel_init 1 (1 / 2) 1 5)
     \<lparr>arrival_draw = 1 / 4, service_draw = 3, activation = [0]\<rparr>"
    by (simp add: valid_input_def QueueServerModel_init_def)
  have v2: "valid_input example_after_1
     \<lparr>arrival_draw = 1 / 4, service_draw = 2, activation = [0]\<rparr>"
    by (simp add: valid_input_def example_after_1_def)
  have a1: "arrival_draw \<lparr>arrival_draw = 1 / 4, service_draw = 3, activation = [0]\<rparr>
      < task_arrival_rate (QueueServerModel_init 1 (1 / 2) 1 5)"
    by (simp add: QueueServerModel_init_def)
  have a2: "arrival_draw \<lparr>arrival_draw = 1 / 4, service_draw = 2, activation = [0]\<rparr>
      < task_arrival_rate example_after_1"
    by (simp add: example_after_1_def)
  have f1: "find_available_server (QueueServerModel_init 1 (1 / 2) 1 5) = Some 0"
    by (simp add: find_available_server_def QueueServerModel_init_def ServerAgent_init_def)
  have f2: "find_available_server example_after_1 = None"
    by (simp add: find_available_server_def example_after_1_def)
  from dispatched_task_same_step [OF reachable.init v1 a1 example_step_1]
    dispatched_task_same_step [OF example_after_1_reachable v2 a2 example_step_2]
    v1 v2 f1 f2 example_step_1 example_step_2 example_after_1_reachable
    reachable.init [of 1 "1 / 2" 1 5]
  show ?thesis
    by (simp add: py_int_def example_after_1_def example_after_2_def QueueServerModel_init_def)
qed

theorem dispatched_task_decremented_counterexample:
  "QueueServerModel_step \<lparr>arrival_draw = 1 / 4, service_draw = 5 / 2, activation = [1, 0]\<rparr>
     (QueueServerModel_init 2 (9 / 10) (2 / 5) 100) =
   Inr \<lparr>num_servers = 2, task_arrival_rate = 9 / 10, task_service_rate = 2 / 5, max_steps = 100,
        running = True, current_step = 1, total_queue_wait_time = 0, total_time_in_system = 0,
        total_tasks = 1,
        servers = [\<lparr>unique_id = 0, busy = True, current_task = Some 0, total_service_time = 0,
                    queue = [], total_tasks_served = 0\<rparr>,
                   \<lparr>unique_id = 1, busy = False, current_task = None, total_service_time = 0,
                    queue = [], total_tasks_served = 0\<rparr>],
        tasks = [\<lparr>task_unique_id = 0, initial_service_time = 2, remaining_service_time = 1,
                  assigned_server = Some 0, arrival_time = 0, queue_wait_time = 0\<rparr>]\<rparr>"
  by (simp add: eval_defs upt_rec)

end
